theory Spec2Isabelle
  imports Main "HOL-Library.Word"
begin

section \<open>Data model (JobSystem.h)\<close>

text \<open>
  The scheduler is a class with a mutex, two condition variables, a deque of task items,
  atomic counters and a vector of worker threads. The embedding is an interleaving
  semantics: the state is the record of the member variables together with the program
  point of every thread, and one step is one atomic action of one thread. An atomic action
  is either a whole critical section of \<^verbatim>\<open>m_mtx\<close> or the atomic operations a thread
  performs between two critical sections (where these are several, as the load of
  \<^verbatim>\<open>m_accepting\<close> and the increment of \<^verbatim>\<open>m_nextTaskId\<close> in \<^verbatim>\<open>SubmitLabeled\<close>, no
  statement below depends on what another thread does in between). The mutex
  itself is therefore implicit, and the states between two steps are the states a thread
  can observe while it holds the lock. A wait on a condition variable with a predicate is a
  step that is enabled only in states where the predicate holds under the lock (spurious
  wake-ups are allowed, so a notification adds no behaviour and needs no state). The
  atomic operations are taken in one global order; the memory orders of the source are not
  modelled. The per-worker telemetry (\<^verbatim>\<open>m_workerTel\<close>, \<^verbatim>\<open>GetDiagnostics\<close>) is write-only
  for the scheduler and is left out.
\<close>

datatype StopMode = Drain | CancelPending

record Config =
  workerThreads :: "32 word"

record Stats =
  workerCount :: "32 word"
  queued :: "64 word"
  inFlight :: "64 word"
  submitted :: "64 word"
  completed :: "64 word"

text \<open>
  A \<^verbatim>\<open>std::function<void()>\<close> is empty or holds a target. The scheduler never looks
  inside the target; all it can observe of a call is whether it returns normally or an
  exception leaves it. A task that never returns is a worker that takes no further step.
\<close>

datatype behaviour = Returns | Throws

datatype callable = Empty | Fn behaviour

datatype completion = Normal | Exception

text \<open>Calling an empty \<^verbatim>\<open>std::function\<close> throws \<^verbatim>\<open>std::bad_function_call\<close>.\<close>

fun invoke :: "callable \<Rightarrow> completion" where
  "invoke Empty = Exception"
| "invoke (Fn Returns) = Normal"
| "invoke (Fn Throws) = Exception"

text \<open>\<^verbatim>\<open>try { body } catch (...) { }\<close>: whatever the body does, control continues normally.\<close>

fun try_catch_all :: "completion \<Rightarrow> completion" where
  "try_catch_all Normal = Normal"
| "try_catch_all Exception = Normal"

text \<open>
  \<^verbatim>\<open>const char*\<close> labels: \<^verbatim>\<open>nullptr\<close> or a string. The fields \<open>id_tel\<close> and \<open>label\<close>
  of a task item exist only when \<^verbatim>\<open>JOBSYS_TELEMETRY\<close> is set; in a build without
  telemetry they keep their default values here.
\<close>

type_synonym cstr = "string option"

record TaskItem =
  fn :: callable
  id_tel :: "64 word"
  label :: cstr

text \<open>
  Program points of a worker thread inside \<^verbatim>\<open>WorkerLoop\<close>:
  \<^item> \<open>W_Wait\<close>: at the top of the loop, about to take the lock and wait on \<^verbatim>\<open>m_cvWork\<close>;
  \<^item> \<open>W_Exec task\<close>: the task has been popped, the lock released, the callable is running;
  \<^item> \<open>W_Ran\<close>: the \<^verbatim>\<open>try\<close> block is over, \<^verbatim>\<open>m_completed\<close> not yet incremented;
  \<^item> \<open>W_Done\<close>: \<^verbatim>\<open>m_completed\<close> incremented, waiting for the lock to decrement \<^verbatim>\<open>m_inFlight\<close>;
  \<^item> \<open>W_Break\<close>: left the loop, about to take the lock for the final notification;
  \<^item> \<open>W_Returned\<close>: the thread function has returned, the thread can be joined;
  \<^item> \<open>W_Terminated\<close>: an exception left the thread function (\<^verbatim>\<open>std::terminate\<close>).
\<close>

datatype worker_pc = W_Wait | W_Exec TaskItem | W_Ran | W_Done | W_Break | W_Returned | W_Terminated

text \<open>A \<^verbatim>\<open>std::jthread\<close>: the thread (its program point) and its stop token.\<close>

record worker =
  pc :: worker_pc
  stop_requested :: bool

text \<open>
  Program points of a thread that calls the public interface. Outside a call the thread is
  \<open>C_Idle\<close> or holds the value its last call returned. \<open>C_Dtor_Request i\<close> and
  \<open>C_Dtor_Join i\<close> are the two halves of the destruction of the \<open>i\<close>-th element of
  \<^verbatim>\<open>m_workers\<close> at the end of the destructor.
\<close>

type_synonym tid = nat

datatype retval = RBool bool | RVoid

datatype caller_pc =
    C_Idle
  | C_Returned retval
  | C_SubmitLabeled_Lock TaskItem
  | C_WaitIdle
  | C_Stop_Clear StopMode
  | C_Stop_Request StopMode nat
  | C_Stop_Wait StopMode
  | C_Stop_Join
  | C_Dtor_Request nat
  | C_Dtor_Join nat

record JobSystem =
  m_cfg :: Config
  m_queue :: "TaskItem list"
  m_accepting :: bool
  m_inFlight :: "64 word"
  m_submitted :: "64 word"
  m_completed :: "64 word"
  m_workers :: "worker list"
  m_nextTaskId :: "64 word"
  callers :: "tid \<Rightarrow> caller_pc"

section \<open>Construction\<close>

text \<open>
  \<open>hc\<close> is the value of \<^verbatim>\<open>std::thread::hardware_concurrency()\<close>, a parameter of the model.
\<close>

definition ResolveThreadCount :: "32 word \<Rightarrow> 32 word \<Rightarrow> 32 word" where
  "ResolveThreadCount requested hc =
     (if requested \<noteq> 0 then requested
      else if hc = 0 then 1 else hc)"

text \<open>
  The constructor starts \<open>n\<close> workers, each at the top of its loop. The queue is empty and
  no stop is requested, so a worker that already runs during construction is blocked.
\<close>

definition JobSystem_ctor :: "Config \<Rightarrow> 32 word \<Rightarrow> JobSystem" where
  "JobSystem_ctor cfg hc =
     (let n = ResolveThreadCount (workerThreads cfg) hc in
      \<lparr> m_cfg = cfg,
        m_queue = [],
        m_accepting = True,
        m_inFlight = 0,
        m_submitted = 0,
        m_completed = 0,
        m_workers = replicate (unat n) \<lparr> pc = W_Wait, stop_requested = False \<rparr>,
        m_nextTaskId = 1,
        callers = (\<lambda>_. C_Idle) \<rparr>)"

section \<open>Submission\<close>

definition goto :: "tid \<Rightarrow> caller_pc \<Rightarrow> JobSystem \<Rightarrow> JobSystem" where
  "goto c p s = s\<lparr> callers := (callers s)(c := p) \<rparr>"

definition ret :: "tid \<Rightarrow> retval \<Rightarrow> JobSystem \<Rightarrow> JobSystem" where
  "ret c r s = goto c (C_Returned r) s"

text \<open>
  \<^verbatim>\<open>SubmitLabeled\<close> up to the lock: the check of the callable, the
  fast-path load of \<^verbatim>\<open>m_accepting\<close>, and the construction of the item. \<open>tel\<close> is the
  build flag \<^verbatim>\<open>JOBSYS_TELEMETRY\<close>.
\<close>

definition SubmitLabeled :: "bool \<Rightarrow> tid \<Rightarrow> cstr \<Rightarrow> callable \<Rightarrow> JobSystem \<Rightarrow> JobSystem" where
  "SubmitLabeled tel c lbl task s =
     (if task = Empty then ret c (RBool False) s
      else if \<not> m_accepting s then ret c (RBool False) s
      else if tel then
        goto c (C_SubmitLabeled_Lock \<lparr> fn = task, id_tel = m_nextTaskId s, label = lbl \<rparr>)
          (s\<lparr> m_nextTaskId := m_nextTaskId s + 1 \<rparr>)
      else
        goto c (C_SubmitLabeled_Lock \<lparr> fn = task, id_tel = 0, label = None \<rparr>) s)"

text \<open>The critical section of \<^verbatim>\<open>SubmitLabeled\<close>, then \<^verbatim>\<open>notify_one\<close> and the return.\<close>

definition SubmitLabeled_locked :: "tid \<Rightarrow> TaskItem \<Rightarrow> JobSystem \<Rightarrow> JobSystem" where
  "SubmitLabeled_locked c item s =
     (if \<not> m_accepting s then ret c (RBool False) s
      else ret c (RBool True)
             (s\<lparr> m_queue := m_queue s @ [item], m_submitted := m_submitted s + 1 \<rparr>))"

definition Submit :: "bool \<Rightarrow> tid \<Rightarrow> callable \<Rightarrow> JobSystem \<Rightarrow> JobSystem" where
  "Submit tel c task s = SubmitLabeled tel c None task s"

section \<open>WaitIdle\<close>

definition WaitIdle_pred :: "JobSystem \<Rightarrow> bool" where
  "WaitIdle_pred s =
     (let empty = (m_queue s = []);
          noneInFlight = (m_inFlight s = 0)
      in empty \<and> noneInFlight)"

text \<open>\<open>None\<close>: the caller stays blocked on \<^verbatim>\<open>m_cvIdle\<close>.\<close>

definition WaitIdle :: "tid \<Rightarrow> JobSystem \<Rightarrow> JobSystem option" where
  "WaitIdle c s = (if WaitIdle_pred s then Some (ret c RVoid s) else None)"

section \<open>Stop\<close>

text \<open>The compare-exchange on \<^verbatim>\<open>m_accepting\<close>: the loser returns at once.\<close>

definition Stop :: "tid \<Rightarrow> StopMode \<Rightarrow> JobSystem \<Rightarrow> JobSystem" where
  "Stop c mode s =
     (if m_accepting s then goto c (C_Stop_Clear mode) (s\<lparr> m_accepting := False \<rparr>)
      else ret c RVoid s)"

text \<open>The critical section that clears the queue in mode \<open>CancelPending\<close>.\<close>

definition Stop_locked :: "tid \<Rightarrow> StopMode \<Rightarrow> JobSystem \<Rightarrow> JobSystem" where
  "Stop_locked c mode s =
     goto c (C_Stop_Request mode 0)
       (if mode = CancelPending then s\<lparr> m_queue := [] \<rparr> else s)"

text \<open>
  One iteration of the loop over \<^verbatim>\<open>m_workers\<close> that requests stop; after the last
  worker, \<^verbatim>\<open>m_cvWork.notify_all()\<close>.
\<close>

definition Stop_request_stop :: "tid \<Rightarrow> StopMode \<Rightarrow> nat \<Rightarrow> JobSystem \<Rightarrow> JobSystem" where
  "Stop_request_stop c mode i s =
     (if i < length (m_workers s) then
        goto c (C_Stop_Request mode (i + 1))
          (s\<lparr> m_workers := (m_workers s)[i := (m_workers s ! i)\<lparr> stop_requested := True \<rparr>] \<rparr>)
      else goto c (C_Stop_Wait mode) s)"

text \<open>The wait of \<^verbatim>\<open>Stop\<close>: \<^verbatim>\<open>WaitIdle()\<close> when draining, else until nothing is in flight.\<close>

definition Stop_wait :: "tid \<Rightarrow> StopMode \<Rightarrow> JobSystem \<Rightarrow> JobSystem option" where
  "Stop_wait c mode s =
     (if mode = Drain then
        (if WaitIdle_pred s then Some (goto c C_Stop_Join s) else None)
      else
        (if m_inFlight s = 0 then Some (goto c C_Stop_Join s) else None))"

text \<open>
  \<^verbatim>\<open>m_workers.clear()\<close> destroys every \<^verbatim>\<open>jthread\<close>, which joins it: the step is
  enabled once every worker has returned.
\<close>

definition Stop_join :: "tid \<Rightarrow> JobSystem \<Rightarrow> JobSystem option" where
  "Stop_join c s =
     (if list_all (\<lambda>w. pc w = W_Returned) (m_workers s)
      then Some (ret c RVoid (s\<lparr> m_workers := [] \<rparr>))
      else None)"

text \<open>
  The destructor. Its body is \<^verbatim>\<open>Stop(StopMode::Drain)\<close>; then the members are destroyed,
  among them \<^verbatim>\<open>m_workers\<close>, a \<^verbatim>\<open>std::vector<std::jthread>\<close>: the destructor of each
  \<^verbatim>\<open>jthread\<close> that is still joinable requests stop and joins its thread.

  When the call of \<^verbatim>\<open>Stop\<close> wins the compare-exchange, the thread goes through the
  shutdown; that ends with \<^verbatim>\<open>m_workers.clear()\<close>, so the destruction of the members finds
  the vector empty and the thread returns with the last step of \<^verbatim>\<open>Stop\<close>. When it loses,
  \<^verbatim>\<open>Stop\<close> returns at once and the thread destroys the elements of \<^verbatim>\<open>m_workers\<close> one
  after the other.
\<close>

definition JobSystem_dtor :: "tid \<Rightarrow> JobSystem \<Rightarrow> JobSystem" where
  "JobSystem_dtor c s =
     (if m_accepting s then Stop c Drain s
      else goto c (C_Dtor_Request 0) s)"

text \<open>
  The destructor of the \<open>i\<close>-th \<^verbatim>\<open>jthread\<close>, first half: \<^verbatim>\<open>request_stop()\<close>. After the
  last element the destructor returns. The object does not exist any more then; the model
  keeps its last state.
\<close>

definition dtor_request_stop :: "tid \<Rightarrow> nat \<Rightarrow> JobSystem \<Rightarrow> JobSystem" where
  "dtor_request_stop c i s =
     (if i < length (m_workers s) then
        goto c (C_Dtor_Join i)
          (s\<lparr> m_workers := (m_workers s)[i := (m_workers s ! i)\<lparr> stop_requested := True \<rparr>] \<rparr>)
      else ret c RVoid s)"

text \<open>
  Second half: \<^verbatim>\<open>join()\<close>, which blocks (\<open>None\<close>) until worker \<open>i\<close> has returned. (When
  another thread has cleared the vector in the meantime there is nothing left to join.)
\<close>

definition dtor_join :: "tid \<Rightarrow> nat \<Rightarrow> JobSystem \<Rightarrow> JobSystem option" where
  "dtor_join c i s =
     (if i < length (m_workers s) \<and> pc (m_workers s ! i) \<noteq> W_Returned then None
      else Some (goto c (C_Dtor_Request (i + 1)) s))"

section \<open>GetStats\<close>

text \<open>
  The snapshot of one state. (The source reads the five fields one after the other, so
  under concurrent activity each field is the value of some state of the run.)
\<close>

definition GetStats :: "JobSystem \<Rightarrow> Stats" where
  "GetStats s =
     \<lparr> workerCount = of_nat (length (m_workers s)),
       queued = of_nat (length (m_queue s)),
       inFlight = m_inFlight s,
       submitted = m_submitted s,
       completed = m_completed s \<rparr>"

section \<open>The worker loop\<close>

definition set_pc :: "nat \<Rightarrow> worker_pc \<Rightarrow> JobSystem \<Rightarrow> JobSystem" where
  "set_pc i p s = s\<lparr> m_workers := (m_workers s)[i := (m_workers s ! i)\<lparr> pc := p \<rparr>] \<rparr>"

text \<open>
  One atomic action of worker \<open>i\<close>. At \<open>W_Wait\<close> it is the whole first critical section:
  the wait on \<^verbatim>\<open>m_cvWork\<close> (\<open>None\<close> while the predicate is false), the \<^verbatim>\<open>break\<close>, the
  \<^verbatim>\<open>continue\<close>, or the pop with the increment of \<^verbatim>\<open>m_inFlight\<close>.
\<close>

definition WorkerLoop :: "nat \<Rightarrow> JobSystem \<Rightarrow> JobSystem option" where
  "WorkerLoop i s =
     (let st = m_workers s ! i in
      case pc st of
        W_Wait \<Rightarrow>
          if \<not> (stop_requested st \<or> m_queue s \<noteq> []) then None
          else if stop_requested st \<and> m_queue s = [] then Some (set_pc i W_Break s)
          else (case m_queue s of
                  [] \<Rightarrow> Some (set_pc i W_Wait s)
                | task # rest \<Rightarrow>
                    Some (set_pc i (W_Exec task)
                           (s\<lparr> m_queue := rest, m_inFlight := m_inFlight s + 1 \<rparr>)))
      | W_Exec task \<Rightarrow>
          (case try_catch_all (invoke (fn task)) of
             Normal \<Rightarrow> Some (set_pc i W_Ran s)
           | Exception \<Rightarrow> Some (set_pc i W_Terminated s))
      | W_Ran \<Rightarrow> Some (set_pc i W_Done (s\<lparr> m_completed := m_completed s + 1 \<rparr>))
      | W_Done \<Rightarrow> Some (set_pc i W_Wait (s\<lparr> m_inFlight := m_inFlight s - 1 \<rparr>))
      | W_Break \<Rightarrow> Some (set_pc i W_Returned s)
      | W_Returned \<Rightarrow> None
      | W_Terminated \<Rightarrow> None)"

section \<open>Interleaving semantics\<close>

datatype api =
    Call_Submit callable
  | Call_SubmitLabeled cstr callable
  | Call_WaitIdle
  | Call_Stop StopMode
  | Call_Destroy

text \<open>
  \<open>Call c a\<close>: thread \<open>c\<close>, outside any call, enters \<open>a\<close> and performs its first atomic
  action. \<open>Resume c\<close>: thread \<open>c\<close> performs the next atomic action of the call it is in.
  \<open>Work i\<close>: worker \<open>i\<close> performs its next atomic action.
\<close>

datatype event = Call tid api | Resume tid | Work nat

fun in_call :: "caller_pc \<Rightarrow> bool" where
  "in_call C_Idle = False"
| "in_call (C_Returned r) = False"
| "in_call p = True"

fun step :: "bool \<Rightarrow> event \<Rightarrow> JobSystem \<Rightarrow> JobSystem option" where
  "step tel (Call c a) s =
     (if in_call (callers s c) then None
      else (case a of
              Call_Submit t \<Rightarrow> Some (Submit tel c t s)
            | Call_SubmitLabeled l t \<Rightarrow> Some (SubmitLabeled tel c l t s)
            | Call_WaitIdle \<Rightarrow> Some (goto c C_WaitIdle s)
            | Call_Stop m \<Rightarrow> Some (Stop c m s)
            | Call_Destroy \<Rightarrow> Some (JobSystem_dtor c s)))"
| "step tel (Resume c) s =
     (case callers s c of
        C_SubmitLabeled_Lock item \<Rightarrow> Some (SubmitLabeled_locked c item s)
      | C_WaitIdle \<Rightarrow> WaitIdle c s
      | C_Stop_Clear m \<Rightarrow> Some (Stop_locked c m s)
      | C_Stop_Request m i \<Rightarrow> Some (Stop_request_stop c m i s)
      | C_Stop_Wait m \<Rightarrow> Stop_wait c m s
      | C_Stop_Join \<Rightarrow> Stop_join c s
      | C_Dtor_Request i \<Rightarrow> Some (dtor_request_stop c i s)
      | C_Dtor_Join i \<Rightarrow> dtor_join c i s
      | C_Idle \<Rightarrow> None
      | C_Returned r \<Rightarrow> None)"
| "step tel (Work i) s = (if i < length (m_workers s) then WorkerLoop i s else None)"

text \<open>A schedule is a list of events; \<open>run\<close> is \<open>None\<close> when one of them is not enabled.\<close>

fun run :: "bool \<Rightarrow> event list \<Rightarrow> JobSystem \<Rightarrow> JobSystem option" where
  "run tel [] s = Some s"
| "run tel (e # es) s = (case step tel e s of None \<Rightarrow> None | Some s' \<Rightarrow> run tel es s')"

section \<open>Observers used in the statements\<close>

text \<open>
  A caller is \<open>stopping\<close> when it is the thread that won the compare-exchange of
  \<^verbatim>\<open>Stop\<close> and has not yet returned.
\<close>

fun stopping :: "caller_pc \<Rightarrow> bool" where
  "stopping (C_Stop_Clear m) = True"
| "stopping (C_Stop_Request m i) = True"
| "stopping (C_Stop_Wait m) = True"
| "stopping C_Stop_Join = True"
| "stopping p = False"

text \<open>A caller is \<open>destroying\<close> when it is in the destructor, past its call of \<^verbatim>\<open>Stop\<close>.\<close>

fun destroying :: "caller_pc \<Rightarrow> bool" where
  "destroying (C_Dtor_Request i) = True"
| "destroying (C_Dtor_Join i) = True"
| "destroying p = False"

fun is_stop_call :: "event \<Rightarrow> bool" where
  "is_stop_call (Call c (Call_Stop m)) = True"
| "is_stop_call (Call c Call_Destroy) = True"
| "is_stop_call e = False"

text \<open>
  A worker is in the middle of its completion transition between the increment of
  \<^verbatim>\<open>m_completed\<close> (outside the lock) and the decrement of \<^verbatim>\<open>m_inFlight\<close> (under it).
\<close>

definition mid_transition :: "JobSystem \<Rightarrow> bool" where
  "mid_transition s = list_ex (\<lambda>w. pc w = W_Done) (m_workers s)"

definition n_done :: "worker list \<Rightarrow> nat" where
  "n_done ws = length (filter (\<lambda>w. pc w = W_Done) ws)"

fun busy :: "worker_pc \<Rightarrow> bool" where
  "busy (W_Exec t) = True"
| "busy W_Ran = True"
| "busy W_Done = True"
| "busy p = False"

definition n_busy :: "worker list \<Rightarrow> nat" where
  "n_busy ws = length (filter (\<lambda>w. busy (pc w)) ws)"

text \<open>
  What one event does to the queue, read off the event and the state it is taken in:
  the item it appends, the item it removes from the front, the items it discards.
\<close>

definition enq_of :: "event \<Rightarrow> JobSystem \<Rightarrow> TaskItem list" where
  "enq_of e s =
     (case e of
        Resume c \<Rightarrow>
          (case callers s c of
             C_SubmitLabeled_Lock item \<Rightarrow> if m_accepting s then [item] else []
           | _ \<Rightarrow> [])
      | _ \<Rightarrow> [])"

definition deq_of :: "event \<Rightarrow> JobSystem \<Rightarrow> TaskItem list" where
  "deq_of e s =
     (case e of
        Work i \<Rightarrow>
          if i < length (m_workers s) \<and> pc (m_workers s ! i) = W_Wait
          then take 1 (m_queue s) else []
      | _ \<Rightarrow> [])"

definition drop_of :: "event \<Rightarrow> JobSystem \<Rightarrow> TaskItem list" where
  "drop_of e s =
     (case e of
        Resume c \<Rightarrow>
          (case callers s c of
             C_Stop_Clear CancelPending \<Rightarrow> m_queue s
           | _ \<Rightarrow> [])
      | _ \<Rightarrow> [])"

text \<open>The history of a schedule: what its events did, in order.\<close>

fun history :: "(event \<Rightarrow> JobSystem \<Rightarrow> 'a list) \<Rightarrow> bool \<Rightarrow> event list \<Rightarrow> JobSystem \<Rightarrow> 'a list" where
  "history f tel [] s = []"
| "history f tel (e # es) s =
     (case step tel e s of None \<Rightarrow> [] | Some s' \<Rightarrow> f e s @ history f tel es s')"

definition enqueued :: "bool \<Rightarrow> event list \<Rightarrow> JobSystem \<Rightarrow> TaskItem list" where
  "enqueued = history enq_of"

definition dequeued :: "bool \<Rightarrow> event list \<Rightarrow> JobSystem \<Rightarrow> TaskItem list" where
  "dequeued = history deq_of"

definition dropped :: "bool \<Rightarrow> event list \<Rightarrow> JobSystem \<Rightarrow> TaskItem list" where
  "dropped = history drop_of"

text \<open>The number of tasks discarded by \<^verbatim>\<open>Stop(CancelPending)\<close> along a schedule.\<close>

definition discarded :: "bool \<Rightarrow> event list \<Rightarrow> JobSystem \<Rightarrow> nat" where
  "discarded tel es s = length (dropped tel es s)"

text \<open>Replacing every \<^verbatim>\<open>Submit(t)\<close> of a schedule by \<^verbatim>\<open>SubmitLabeled(nullptr, t)\<close>.\<close>

fun as_labeled :: "event \<Rightarrow> event" where
  "as_labeled (Call c (Call_Submit t)) = Call c (Call_SubmitLabeled None t)"
| "as_labeled e = e"

text \<open>
  The counter equation as a difference, over the 64-bit counters (where \<open>+\<close> wraps as
  the atomics do): it is 0 when \<open>submitted = completed + inFlight + queued\<close> up to the
  workers that are in the middle of their completion transition.
\<close>

definition balance :: "JobSystem \<Rightarrow> 64 word" where
  "balance s = m_completed s + m_inFlight s + of_nat (length (m_queue s))
               - m_submitted s - of_nat (n_done (m_workers s))"

fun is_cancel_call :: "event \<Rightarrow> bool" where
  "is_cancel_call (Call c (Call_Stop CancelPending)) = True"
| "is_cancel_call e = False"

text \<open>No caller is about to run the critical section of \<^verbatim>\<open>Stop(CancelPending)\<close>.\<close>

definition no_clearing :: "JobSystem \<Rightarrow> bool" where
  "no_clearing s = (\<forall>c. callers s c \<noteq> C_Stop_Clear CancelPending)"

text \<open>The callers that have joined the workers and cleared \<^verbatim>\<open>m_workers\<close> along a schedule.\<close>

definition join_of :: "event \<Rightarrow> JobSystem \<Rightarrow> tid list" where
  "join_of e s =
     (case e of
        Resume c \<Rightarrow> (case callers s c of C_Stop_Join \<Rightarrow> [c] | _ \<Rightarrow> [])
      | _ \<Rightarrow> [])"

definition joined :: "bool \<Rightarrow> event list \<Rightarrow> JobSystem \<Rightarrow> tid list" where
  "joined = history join_of"

section \<open>Invariants of the reachable states\<close>

text \<open>Whoever is inside the shutdown has cleared \<^verbatim>\<open>m_accepting\<close> before.\<close>

definition stop_inv :: "JobSystem \<Rightarrow> bool" where
  "stop_inv s = (\<forall>c. stopping (callers s c) \<longrightarrow> \<not> m_accepting s)"

text \<open>A destructor destroys the workers only after its compare-exchange has failed.\<close>

definition dtor_inv :: "JobSystem \<Rightarrow> bool" where
  "dtor_inv s = (\<forall>c. destroying (callers s c) \<longrightarrow> \<not> m_accepting s)"

text \<open>
  Once \<^verbatim>\<open>m_accepting\<close> is false, either the thread that cleared it is still inside the
  shutdown or the worker vector has been cleared.
\<close>

definition shutdown_inv :: "JobSystem \<Rightarrow> bool" where
  "shutdown_inv s = (m_accepting s \<or> (\<exists>c. stopping (callers s c)) \<or> m_workers s = [])"

text \<open>\<^verbatim>\<open>m_inFlight\<close> counts the workers between their pop and their decrement.\<close>

definition inflight_inv :: "JobSystem \<Rightarrow> bool" where
  "inflight_inv s = (m_inFlight s = of_nat (n_busy (m_workers s)))"

text \<open>The worker vector keeps its size until \<^verbatim>\<open>Stop\<close> clears it.\<close>

definition workers_inv :: "32 word \<Rightarrow> JobSystem \<Rightarrow> bool" where
  "workers_inv n s = (length (m_workers s) = unat n \<or> (m_workers s = [] \<and> \<not> m_accepting s))"

text \<open>
  A worker is never terminated by an exception, and it has left its loop only if its stop
  token was set.
\<close>

definition alive :: "worker \<Rightarrow> bool" where
  "alive w = (pc w \<noteq> W_Terminated \<and> (pc w = W_Break \<or> pc w = W_Returned \<longrightarrow> stop_requested w))"

text \<open>
  The shutdown has passed its critical section: \<^verbatim>\<open>m_accepting\<close> is false and no caller is
  still in front of the critical section of \<^verbatim>\<open>Stop\<close>.
\<close>

definition closed :: "JobSystem \<Rightarrow> bool" where
  "closed s = (\<not> m_accepting s \<and> (\<forall>c m. callers s c \<noteq> C_Stop_Clear m))"

text \<open>At most one caller is inside the shutdown.\<close>

definition single_stopper :: "JobSystem \<Rightarrow> bool" where
  "single_stopper s = (\<forall>c c'. stopping (callers s c) \<longrightarrow> stopping (callers s c') \<longrightarrow> c = c')"

text \<open>The queue is empty and will stay so: nothing is accepted any more.\<close>

definition cleared :: "JobSystem \<Rightarrow> bool" where
  "cleared s = (\<not> m_accepting s \<and> m_queue s = [])"

section \<open>Concrete schedules\<close>

definition one_worker :: JobSystem where
  "one_worker = JobSystem_ctor \<lparr> workerThreads = 1 \<rparr> 0"

text \<open>
  One worker; a first task is picked up and runs; two more tasks are queued behind it;
  another thread calls \<^verbatim>\<open>Stop(CancelPending)\<close> and wins the compare-exchange.
\<close>

definition pending_schedule :: "event list" where
  "pending_schedule =
     [Call 0 (Call_Submit (Fn Returns)), Resume 0, Work 0,
      Call 0 (Call_Submit (Fn Throws)), Resume 0,
      Call 0 (Call_Submit (Fn Returns)), Resume 0,
      Call 1 (Call_Stop CancelPending)]"

text \<open>The same, and the stopping thread has cleared the queue.\<close>

definition cancel_schedule :: "event list" where
  "cancel_schedule =
     [Call 0 (Call_Submit (Fn Returns)), Resume 0, Work 0,
      Call 0 (Call_Submit (Fn Throws)), Resume 0,
      Call 0 (Call_Submit (Fn Returns)), Resume 0,
      Call 1 (Call_Stop CancelPending), Resume 1]"

text \<open>
  One worker, no stop: two tasks are submitted, a thread enters \<^verbatim>\<open>WaitIdle\<close>, the
  worker runs both tasks (the second one throws).
\<close>

definition idle_schedule :: "event list" where
  "idle_schedule =
     [Call 0 (Call_Submit (Fn Returns)), Resume 0,
      Call 0 (Call_Submit (Fn Throws)), Resume 0,
      Call 1 Call_WaitIdle,
      Work 0, Work 0, Work 0, Work 0,
      Work 0, Work 0, Work 0, Work 0]"

text \<open>One worker picks up a task that throws.\<close>

definition throw_schedule :: "event list" where
  "throw_schedule = [Call 0 (Call_Submit (Fn Throws)), Resume 0, Work 0]"

text \<open>
  One worker, \<^verbatim>\<open>Stop(Drain)\<close> on an idle scheduler: the compare-exchange, the critical
  section, the stop request, the notification, the worker leaving its loop and returning,
  the end of the wait. In \<open>stopped_schedule\<close> the stopping thread then joins the worker
  and returns.
\<close>

definition drain_schedule :: "event list" where
  "drain_schedule =
     [Call 0 (Call_Stop Drain), Resume 0, Resume 0, Resume 0, Work 0, Work 0, Resume 0]"

definition stopped_schedule :: "event list" where
  "stopped_schedule = drain_schedule @ [Resume 0]"

text \<open>
  One worker, telemetry on: two threads submit \<open>a\<close> and \<open>b\<close>, and \<open>b\<close> reaches the queue
  first; the worker takes and runs a task; \<open>c\<close> is submitted.
\<close>

definition fifo_schedule :: "event list" where
  "fifo_schedule =
     [Call 0 (Call_SubmitLabeled (Some ''a'') (Fn Returns)),
      Call 1 (Call_SubmitLabeled (Some ''b'') (Fn Throws)),
      Resume 1, Resume 0, Work 0,
      Call 0 (Call_SubmitLabeled (Some ''c'') (Fn Returns)), Resume 0,
      Work 0, Work 0, Work 0]"

text \<open>A \<^verbatim>\<open>Stop\<close> that runs between the fast path and the critical section of a submission.\<close>

definition race_schedule :: "event list" where
  "race_schedule = [Call 1 (Call_Stop Drain)]"

section \<open>Case analysis of a step\<close>

lemma stopping_in_call: "stopping p \<Longrightarrow> in_call p"
  by (cases p) simp_all

lemma step_cases [consumes 1, case_names caller cas enqueue clear request join dtor brk ran fin pop
    complete release]:
  assumes "step tel e s = Some s'"
  obtains
    (caller) c p n where
      "(\<exists>a. e = Call c a) \<or> e = Resume c"
      "enq_of e s = []" "deq_of e s = []" "drop_of e s = []"
      "s' = s\<lparr> m_nextTaskId := n, callers := (callers s)(c := p) \<rparr>"
      "stopping p \<longrightarrow> stopping (callers s c)" "\<forall>m. p \<noteq> C_Stop_Clear m"
      "stopping (callers s c) \<longrightarrow> stopping p"
      "destroying p \<longrightarrow> \<not> m_accepting s \<or> destroying (callers s c)"
  | (cas) c m where
      "e = Call c (Call_Stop m) \<or> (e = Call c Call_Destroy \<and> m = Drain)"
      "m_accepting s"
      "s' = s\<lparr> m_accepting := False, callers := (callers s)(c := C_Stop_Clear m) \<rparr>"
  | (enqueue) c item where
      "e = Resume c" "callers s c = C_SubmitLabeled_Lock item" "m_accepting s"
      "s' = s\<lparr> m_queue := m_queue s @ [item], m_submitted := m_submitted s + 1,
                callers := (callers s)(c := C_Returned (RBool True)) \<rparr>"
  | (clear) c where
      "e = Resume c" "callers s c = C_Stop_Clear CancelPending"
      "s' = s\<lparr> m_queue := [], callers := (callers s)(c := C_Stop_Request CancelPending 0) \<rparr>"
  | (request) c m i where
      "e = Resume c" "callers s c = C_Stop_Request m i" "i < length (m_workers s)"
      "s' = s\<lparr> m_workers := (m_workers s)[i := (m_workers s ! i)\<lparr> stop_requested := True \<rparr>],
                callers := (callers s)(c := C_Stop_Request m (i + 1)) \<rparr>"
  | (join) c where
      "e = Resume c" "callers s c = C_Stop_Join"
      "list_all (\<lambda>w. pc w = W_Returned) (m_workers s)"
      "s' = s\<lparr> m_workers := [], callers := (callers s)(c := C_Returned RVoid) \<rparr>"
  | (dtor) c i where
      "e = Resume c" "callers s c = C_Dtor_Request i" "i < length (m_workers s)"
      "s' = s\<lparr> m_workers := (m_workers s)[i := (m_workers s ! i)\<lparr> stop_requested := True \<rparr>],
                callers := (callers s)(c := C_Dtor_Join i) \<rparr>"
  | (brk) i where
      "e = Work i" "i < length (m_workers s)" "pc (m_workers s ! i) = W_Wait"
      "stop_requested (m_workers s ! i)" "m_queue s = []"
      "s' = set_pc i W_Break s"
  | (ran) i t where
      "e = Work i" "i < length (m_workers s)" "pc (m_workers s ! i) = W_Exec t"
      "s' = set_pc i W_Ran s"
  | (fin) i where
      "e = Work i" "i < length (m_workers s)" "pc (m_workers s ! i) = W_Break"
      "s' = set_pc i W_Returned s"
  | (pop) i t rest where
      "e = Work i" "i < length (m_workers s)" "pc (m_workers s ! i) = W_Wait"
      "m_queue s = t # rest"
      "s' = set_pc i (W_Exec t) (s\<lparr> m_queue := rest, m_inFlight := m_inFlight s + 1 \<rparr>)"
  | (complete) i where
      "e = Work i" "i < length (m_workers s)" "pc (m_workers s ! i) = W_Ran"
      "s' = set_pc i W_Done (s\<lparr> m_completed := m_completed s + 1 \<rparr>)"
  | (release) i where
      "e = Work i" "i < length (m_workers s)" "pc (m_workers s ! i) = W_Done"
      "s' = set_pc i W_Wait (s\<lparr> m_inFlight := m_inFlight s - 1 \<rparr>)"
proof (cases e)
  case (Call c a)
  show ?thesis
  proof (cases a)
    case (Call_Submit t)
    with Call assms show ?thesis
      by (intro caller[of c "callers s' c" "if m_accepting s \<and> t \<noteq> Empty \<and> tel then m_nextTaskId s + 1 else m_nextTaskId s"])
         (auto dest: stopping_in_call simp: enq_of_def deq_of_def drop_of_def Submit_def SubmitLabeled_def goto_def ret_def split: if_splits)
  next
    case (Call_SubmitLabeled l t)
    with Call assms show ?thesis
      by (intro caller[of c "callers s' c" "if m_accepting s \<and> t \<noteq> Empty \<and> tel then m_nextTaskId s + 1 else m_nextTaskId s"])
         (auto dest: stopping_in_call simp: enq_of_def deq_of_def drop_of_def Submit_def SubmitLabeled_def goto_def ret_def split: if_splits)
  next
    case Call_WaitIdle
    with Call assms show ?thesis
      by (intro caller[of c C_WaitIdle "m_nextTaskId s"])
         (auto dest: stopping_in_call simp: enq_of_def deq_of_def drop_of_def goto_def ret_def split: if_splits)
  next
    case (Call_Stop m)
    show ?thesis
    proof (cases "m_accepting s")
      case True
      with Call Call_Stop assms show ?thesis
        by (intro cas[of c m]) (auto dest: stopping_in_call simp: Stop_def goto_def split: if_splits)
    next
      case False
      with Call Call_Stop assms show ?thesis
        by (intro caller[of c "C_Returned RVoid" "m_nextTaskId s"]) (auto dest: stopping_in_call simp: enq_of_def deq_of_def drop_of_def Stop_def goto_def ret_def split: if_splits)
    qed
  next
    case Call_Destroy
    show ?thesis
    proof (cases "m_accepting s")
      case True
      with Call Call_Destroy assms show ?thesis
        by (intro cas[of c Drain]) (auto dest: stopping_in_call simp: Stop_def JobSystem_dtor_def goto_def split: if_splits)
    next
      case False
      with Call Call_Destroy assms show ?thesis
        by (intro caller[of c "C_Dtor_Request 0" "m_nextTaskId s"])
           (auto dest: stopping_in_call
                 simp: enq_of_def deq_of_def drop_of_def JobSystem_dtor_def goto_def
                 split: if_splits)
    qed
  qed
next
  case (Resume c)
  show ?thesis
  proof (cases "callers s c")
    case C_Idle
    with Resume assms show ?thesis by simp
  next
    case (C_Returned r)
    with Resume assms show ?thesis by simp
  next
    case (C_SubmitLabeled_Lock item)
    show ?thesis
    proof (cases "m_accepting s")
      case True
      with Resume C_SubmitLabeled_Lock assms show ?thesis
        by (intro enqueue[of c item]) (auto simp: SubmitLabeled_locked_def goto_def ret_def)
    next
      case False
      with Resume C_SubmitLabeled_Lock assms show ?thesis
        by (intro caller[of c "C_Returned (RBool False)" "m_nextTaskId s"]) (auto simp: enq_of_def deq_of_def drop_of_def SubmitLabeled_locked_def goto_def ret_def)
    qed
  next
    case C_WaitIdle
    with Resume assms show ?thesis
      by (intro caller[of c "C_Returned RVoid" "m_nextTaskId s"]) (auto simp: enq_of_def deq_of_def drop_of_def WaitIdle_def goto_def ret_def split: if_splits)
  next
    case (C_Stop_Clear m)
    show ?thesis
    proof (cases m)
      case Drain
      with Resume C_Stop_Clear assms show ?thesis
        by (intro caller[of c "C_Stop_Request Drain 0" "m_nextTaskId s"]) (auto simp: enq_of_def deq_of_def drop_of_def Stop_locked_def goto_def)
    next
      case CancelPending
      with Resume C_Stop_Clear assms show ?thesis
        by (intro clear[of c]) (auto simp: Stop_locked_def goto_def)
    qed
  next
    case (C_Stop_Request m i)
    show ?thesis
    proof (cases "i < length (m_workers s)")
      case True
      with Resume C_Stop_Request assms show ?thesis
        by (intro request[of c m i]) (auto simp: Stop_request_stop_def goto_def)
    next
      case False
      with Resume C_Stop_Request assms show ?thesis
        by (intro caller[of c "C_Stop_Wait m" "m_nextTaskId s"]) (auto simp: enq_of_def deq_of_def drop_of_def Stop_request_stop_def goto_def)
    qed
  next
    case (C_Stop_Wait m)
    with Resume assms show ?thesis
      by (intro caller[of c "C_Stop_Join" "m_nextTaskId s"]) (auto simp: enq_of_def deq_of_def drop_of_def Stop_wait_def goto_def split: if_splits)
  next
    case C_Stop_Join
    with Resume assms show ?thesis
      by (intro join[of c]) (auto simp: Stop_join_def goto_def ret_def split: if_splits)
  next
    case (C_Dtor_Request i)
    show ?thesis
    proof (cases "i < length (m_workers s)")
      case True
      with Resume C_Dtor_Request assms show ?thesis
        by (intro dtor[of c i]) (auto simp: dtor_request_stop_def goto_def)
    next
      case False
      with Resume C_Dtor_Request assms show ?thesis
        by (intro caller[of c "C_Returned RVoid" "m_nextTaskId s"])
           (auto simp: enq_of_def deq_of_def drop_of_def dtor_request_stop_def goto_def ret_def)
    qed
  next
    case (C_Dtor_Join i)
    with Resume assms show ?thesis
      by (intro caller[of c "C_Dtor_Request (i + 1)" "m_nextTaskId s"])
         (auto simp: enq_of_def deq_of_def drop_of_def dtor_join_def goto_def split: if_splits)
  qed
next
  case (Work i)
  with assms have len: "i < length (m_workers s)" and wl: "WorkerLoop i s = Some s'"
    by (auto split: if_splits)
  show ?thesis
  proof (cases "pc (m_workers s ! i)")
    case W_Wait
    show ?thesis
    proof (cases "m_queue s")
      case Nil
      with Work len wl W_Wait show ?thesis
        by (intro brk[of i]) (auto simp: WorkerLoop_def Let_def split: if_splits)
    next
      case (Cons t rest)
      with Work len wl W_Wait show ?thesis
        by (intro pop[of i t rest]) (auto simp: WorkerLoop_def Let_def split: if_splits)
    qed
  next
    case (W_Exec t)
    with Work len wl show ?thesis
      by (intro ran[of i t]) (cases "invoke (fn t)"; auto simp: WorkerLoop_def Let_def)+
  next
    case W_Ran
    with Work len wl show ?thesis
      by (intro complete[of i]) (auto simp: WorkerLoop_def Let_def)
  next
    case W_Done
    with Work len wl show ?thesis
      by (intro release[of i]) (auto simp: WorkerLoop_def Let_def)
  next
    case W_Break
    with Work len wl show ?thesis
      by (intro fin[of i]) (auto simp: WorkerLoop_def Let_def)
  next
    case W_Returned
    with wl show ?thesis by (simp add: WorkerLoop_def Let_def)
  next
    case W_Terminated
    with wl show ?thesis by (simp add: WorkerLoop_def Let_def)
  qed
qed

section \<open>Counting workers\<close>

lemma set_pc_simps [simp]:
  "m_cfg (set_pc i p s) = m_cfg s"
  "m_queue (set_pc i p s) = m_queue s"
  "m_accepting (set_pc i p s) = m_accepting s"
  "m_inFlight (set_pc i p s) = m_inFlight s"
  "m_submitted (set_pc i p s) = m_submitted s"
  "m_completed (set_pc i p s) = m_completed s"
  "m_nextTaskId (set_pc i p s) = m_nextTaskId s"
  "callers (set_pc i p s) = callers s"
  "m_workers (set_pc i p s) = (m_workers s)[i := (m_workers s ! i)\<lparr> pc := p \<rparr>]"
  by (simp_all add: set_pc_def)

lemma filter_update_length:
  "i < length xs \<Longrightarrow>
   length (filter P (xs[i := y])) + (if P (xs ! i) then 1 else 0)
     = length (filter P xs) + (if P y then 1 else 0)"
proof (induction xs arbitrary: i)
  case Nil
  then show ?case by simp
next
  case (Cons x xs)
  then show ?case by (cases i) auto
qed

lemma n_done_update:
  "i < length ws \<Longrightarrow>
   n_done (ws[i := w]) + (if pc (ws ! i) = W_Done then 1 else 0)
     = n_done ws + (if pc w = W_Done then 1 else 0)"
  unfolding n_done_def by (rule filter_update_length)

lemma n_busy_update:
  "i < length ws \<Longrightarrow>
   n_busy (ws[i := w]) + (if busy (pc (ws ! i)) then 1 else 0)
     = n_busy ws + (if busy (pc w) then 1 else 0)"
  unfolding n_busy_def by (rule filter_update_length)

lemma n_done_same: "i < length ws \<Longrightarrow> pc w \<noteq> W_Done \<Longrightarrow> pc (ws ! i) \<noteq> W_Done \<Longrightarrow> n_done (ws[i := w]) = n_done ws"
  using n_done_update[of i ws w] by simp

lemma n_done_enter: "i < length ws \<Longrightarrow> pc w = W_Done \<Longrightarrow> pc (ws ! i) \<noteq> W_Done \<Longrightarrow> n_done (ws[i := w]) = Suc (n_done ws)"
  using n_done_update[of i ws w] by simp

lemma n_done_leave: "i < length ws \<Longrightarrow> pc w \<noteq> W_Done \<Longrightarrow> pc (ws ! i) = W_Done \<Longrightarrow> Suc (n_done (ws[i := w])) = n_done ws"
  using n_done_update[of i ws w] by simp

lemma n_done_keep: "i < length ws \<Longrightarrow> pc w = pc (ws ! i) \<Longrightarrow> n_done (ws[i := w]) = n_done ws"
  using n_done_update[of i ws w] by simp

lemma n_done_all_returned: "list_all (\<lambda>w. pc w = W_Returned) ws \<Longrightarrow> n_done ws = 0"
  by (induction ws) (auto simp: n_done_def)

lemma n_done_Nil: "n_done [] = 0"
  by (simp add: n_done_def)

lemma n_done_zero: "n_done ws = 0 \<longleftrightarrow> \<not> list_ex (\<lambda>w. pc w = W_Done) ws"
  by (induction ws) (auto simp: n_done_def)

lemma step_balance:
  assumes "step tel e s = Some s'"
  shows "balance s' + of_nat (length (drop_of e s)) = balance s"
  using assms
proof (cases rule: step_cases)
  case (caller c p n)
  then show ?thesis by (simp add: balance_def)
next
  case (cas c m)
  then show ?thesis by (auto simp: balance_def drop_of_def)
next
  case (enqueue c item)
  then show ?thesis by (simp add: balance_def drop_of_def)
next
  case (clear c)
  then show ?thesis by (simp add: balance_def drop_of_def)
next
  case (request c m i)
  then show ?thesis by (simp add: balance_def drop_of_def n_done_keep)
next
  case (dtor c i)
  then show ?thesis by (simp add: balance_def drop_of_def n_done_keep)
next
  case (join c)
  then show ?thesis by (simp add: balance_def drop_of_def n_done_all_returned n_done_Nil)
next
  case (brk i)
  then show ?thesis by (simp add: balance_def drop_of_def n_done_same)
next
  case (ran i t)
  then show ?thesis by (simp add: balance_def drop_of_def n_done_same)
next
  case (fin i)
  then show ?thesis by (simp add: balance_def drop_of_def n_done_same)
next
  case (pop i t rest)
  then show ?thesis by (simp add: balance_def drop_of_def n_done_same)
next
  case (complete i)
  then show ?thesis by (simp add: balance_def drop_of_def n_done_enter)
next
  case (release i)
  then have "Suc (n_done (m_workers s')) = n_done (m_workers s)"
    by (simp add: n_done_leave)
  then have "(of_nat (n_done (m_workers s)) :: 64 word) = of_nat (n_done (m_workers s')) + 1"
    by (metis of_nat_Suc add.commute)
  with release show ?thesis by (simp add: balance_def drop_of_def)
qed

lemma run_balance:
  "run tel es s = Some s' \<Longrightarrow> balance s' + of_nat (discarded tel es s) = balance s"
proof (induction es arbitrary: s)
  case Nil
  then show ?case by (simp add: discarded_def dropped_def)
next
  case (Cons e es)
  then obtain s1 where s1: "step tel e s = Some s1" and r: "run tel es s1 = Some s'"
    by (auto split: option.splits)
  have "discarded tel (e # es) s = length (drop_of e s) + discarded tel es s1"
    using s1 by (simp add: discarded_def dropped_def)
  then have "balance s' + of_nat (discarded tel (e # es) s)
             = (balance s' + of_nat (discarded tel es s1)) + of_nat (length (drop_of e s))"
    by (simp add: algebra_simps)
  also have "\<dots> = balance s1 + of_nat (length (drop_of e s))"
    using Cons.IH[OF r] by simp
  also have "\<dots> = balance s"
    using step_balance[OF s1] .
  finally show ?case .
qed

section \<open>Invariants of a run\<close>

lemma run_invariant:
  assumes "\<And>e s s'. P s \<Longrightarrow> step tel e s = Some s' \<Longrightarrow> P s'"
      and "P s" and "run tel es s = Some s'"
  shows "P s'"
  using assms(2,3)
proof (induction es arbitrary: s)
  case Nil
  then show ?case by simp
next
  case (Cons e es)
  then obtain s1 where "step tel e s = Some s1" "run tel es s1 = Some s'"
    by (auto split: option.splits)
  with Cons assms(1) show ?case by blast
qed

lemma balance_ctor: "balance (JobSystem_ctor cfg hc) = 0"
proof -
  have "filter (\<lambda>w. pc w = W_Done) (replicate n \<lparr> pc = W_Wait, stop_requested = False \<rparr>) = []" for n
    by (induction n) auto
  then show ?thesis
    by (simp add: balance_def JobSystem_ctor_def Let_def n_done_def)
qed

lemma step_no_clearing:
  assumes "step tel e s = Some s'" "\<not> is_cancel_call e" "no_clearing s"
  shows "no_clearing s'"
  using assms
proof (cases rule: step_cases)
  case (cas c m)
  with assms(2,3) show ?thesis
    by (cases m) (auto simp: no_clearing_def)
qed (auto simp: no_clearing_def)

lemma drop_of_no_clearing: "no_clearing s \<Longrightarrow> drop_of e s = []"
  by (auto simp: drop_of_def no_clearing_def split: event.splits caller_pc.splits StopMode.splits)

lemma run_no_cancel:
  "run tel es s = Some s' \<Longrightarrow> \<not> list_ex is_cancel_call es \<Longrightarrow> no_clearing s \<Longrightarrow>
   discarded tel es s = 0 \<and> no_clearing s'"
proof (induction es arbitrary: s)
  case Nil
  then show ?case by (simp add: discarded_def dropped_def)
next
  case (Cons e es)
  then obtain s1 where s1: "step tel e s = Some s1" and r: "run tel es s1 = Some s'"
    by (auto split: option.splits)
  from Cons.prems have nc: "\<not> is_cancel_call e" "\<not> list_ex is_cancel_call es" by auto
  have "no_clearing s1" using step_no_clearing[OF s1 nc(1) Cons.prems(3)] .
  from Cons.IH[OF r nc(2) this] s1 drop_of_no_clearing[OF Cons.prems(3)]
  show ?case by (simp add: discarded_def dropped_def)
qed

lemma no_clearing_ctor: "no_clearing (JobSystem_ctor cfg hc)"
  by (simp add: no_clearing_def JobSystem_ctor_def Let_def)

section \<open>Evaluation of the concrete schedules\<close>

lemmas exec_simps = JobSystem_ctor_def ResolveThreadCount_def Submit_def SubmitLabeled_def
  SubmitLabeled_locked_def WaitIdle_def WaitIdle_pred_def
  Stop_def Stop_locked_def Stop_request_stop_def Stop_wait_def Stop_join_def JobSystem_dtor_def
  dtor_request_stop_def dtor_join_def WorkerLoop_def set_pc_def goto_def ret_def Let_def

lemma cancel_run:
  "run False cancel_schedule one_worker =
     Some \<lparr> m_cfg = \<lparr> workerThreads = 1 \<rparr>, m_queue = [], m_accepting = False,
            m_inFlight = 1, m_submitted = 3, m_completed = 0,
            m_workers = [\<lparr> pc = W_Exec \<lparr> fn = Fn Returns, id_tel = 0, label = None \<rparr>,
                           stop_requested = False \<rparr>],
            m_nextTaskId = 1,
            callers = (\<lambda>_. C_Idle)(0 := C_Returned (RBool True),
                                     1 := C_Stop_Request CancelPending 0) \<rparr>"
  by (simp add: cancel_schedule_def one_worker_def exec_simps)

section \<open>The counter equation\<close>

text \<open>
  C1. In every state reached by a schedule from the constructed scheduler in which no
  worker is between its increment of \<^verbatim>\<open>m_completed\<close> and its decrement of
  \<^verbatim>\<open>m_inFlight\<close>, \<open>submitted = completed + inFlight + queued + discarded\<close> over the 64-bit
  counters, where \<open>discarded\<close> is the number of tasks that \<^verbatim>\<open>Stop(CancelPending)\<close> has
  removed from the queue along the schedule. When the schedule holds no call of
  \<^verbatim>\<open>Stop(CancelPending)\<close>, nothing has been discarded and
  \<open>submitted = completed + inFlight + queued\<close>. The states between two steps are the states
  a thread can observe while it holds the lock.
\<close>

theorem counter_equation:
  assumes "run tel es (JobSystem_ctor cfg hc) = Some s"
      and "\<not> mid_transition s"
  shows "m_submitted s = m_completed s + m_inFlight s + of_nat (length (m_queue s))
                         + of_nat (discarded tel es (JobSystem_ctor cfg hc))
         \<and> (\<not> list_ex is_cancel_call es \<longrightarrow>
              discarded tel es (JobSystem_ctor cfg hc) = 0
              \<and> m_submitted s = m_completed s + m_inFlight s + of_nat (length (m_queue s)))"
proof -
  have nd: "n_done (m_workers s) = 0"
    using assms(2) by (simp add: n_done_zero mid_transition_def)
  have "balance s + of_nat (discarded tel es (JobSystem_ctor cfg hc)) = 0"
    using run_balance[OF assms(1)] by (simp add: balance_ctor)
  with nd have eq: "m_submitted s = m_completed s + m_inFlight s + of_nat (length (m_queue s))
                         + of_nat (discarded tel es (JobSystem_ctor cfg hc))"
    by (simp add: balance_def algebra_simps)
  show ?thesis
  proof (intro conjI impI)
    show "m_submitted s = m_completed s + m_inFlight s + of_nat (length (m_queue s))
                         + of_nat (discarded tel es (JobSystem_ctor cfg hc))" by (rule eq)
  next
    assume "\<not> list_ex is_cancel_call es"
    from run_no_cancel[OF assms(1) this no_clearing_ctor]
    show "discarded tel es (JobSystem_ctor cfg hc) = 0" by simp
    with eq show "m_submitted s = m_completed s + m_inFlight s + of_nat (length (m_queue s))" by simp
  qed
qed

theorem counter_equation_witness:
  "run False cancel_schedule one_worker \<noteq> None
   \<and> \<not> mid_transition (the (run False cancel_schedule one_worker))
   \<and> m_submitted (the (run False cancel_schedule one_worker))
       = m_completed (the (run False cancel_schedule one_worker))
         + m_inFlight (the (run False cancel_schedule one_worker))
         + of_nat (length (m_queue (the (run False cancel_schedule one_worker))))
         + of_nat (discarded False cancel_schedule one_worker)"
proof -
  have r: "run False cancel_schedule one_worker = Some (the (run False cancel_schedule one_worker))"
    by (simp add: cancel_run)
  have mt: "\<not> mid_transition (the (run False cancel_schedule one_worker))"
    by (simp add: cancel_run mid_transition_def)
  have r0: "run False cancel_schedule one_worker \<noteq> None"
    by (simp add: cancel_run)
  note ce = counter_equation[of False cancel_schedule "\<lparr> workerThreads = 1 \<rparr>" 0,
      folded one_worker_def, OF r mt]
  from ce r0 mt show ?thesis by blast
qed

section \<open>State invariants\<close>

lemma step_accepting_mono:
  assumes "step tel e s = Some s'" "\<not> m_accepting s"
  shows "\<not> m_accepting s'"
  using assms by (cases rule: step_cases) auto

lemma run_accepting_mono:
  "run tel es s = Some s' \<Longrightarrow> \<not> m_accepting s \<Longrightarrow> \<not> m_accepting s'"
  by (rule run_invariant[where P = "\<lambda>s. \<not> m_accepting s"]) (auto dest: step_accepting_mono)

lemma step_accepting_keep:
  assumes "step tel e s = Some s'" "\<not> is_stop_call e" "m_accepting s"
  shows "m_accepting s'"
  using assms by (cases rule: step_cases) auto

lemma stop_invD: "stop_inv s \<Longrightarrow> stopping (callers s c) \<Longrightarrow> \<not> m_accepting s"
  by (auto simp: stop_inv_def)

lemma step_stop_inv:
  assumes "stop_inv s" "step tel e s = Some s'"
  shows "stop_inv s'"
  using assms(2)
proof (cases rule: step_cases)
  case (clear c)
  then have "\<not> m_accepting s" using stop_invD[OF assms(1), of c] by simp
  with clear show ?thesis by (simp add: stop_inv_def)
next
  case (request c m i)
  then have "\<not> m_accepting s" using stop_invD[OF assms(1), of c] by simp
  with request show ?thesis by (simp add: stop_inv_def)
qed (use assms(1) in \<open>auto simp: stop_inv_def\<close>)

lemma stop_inv_ctor: "stop_inv (JobSystem_ctor cfg hc)"
  by (simp add: stop_inv_def JobSystem_ctor_def Let_def)

lemma run_stop_inv: "run tel es (JobSystem_ctor cfg hc) = Some s \<Longrightarrow> stop_inv s"
  by (rule run_invariant[where P = stop_inv, OF step_stop_inv stop_inv_ctor])

lemma n_busy_Nil: "n_busy [] = 0"
  by (simp add: n_busy_def)

lemma n_busy_all_returned: "list_all (\<lambda>w. pc w = W_Returned) ws \<Longrightarrow> n_busy ws = 0"
  by (induction ws) (auto simp: n_busy_def)

lemma n_busy_same: "i < length ws \<Longrightarrow> busy (pc w) = busy (pc (ws ! i)) \<Longrightarrow> n_busy (ws[i := w]) = n_busy ws"
  using n_busy_update[of i ws w] by simp

lemma n_busy_enter: "i < length ws \<Longrightarrow> busy (pc w) \<Longrightarrow> \<not> busy (pc (ws ! i)) \<Longrightarrow> n_busy (ws[i := w]) = Suc (n_busy ws)"
  using n_busy_update[of i ws w] by simp

lemma n_busy_leave: "i < length ws \<Longrightarrow> \<not> busy (pc w) \<Longrightarrow> busy (pc (ws ! i)) \<Longrightarrow> Suc (n_busy (ws[i := w])) = n_busy ws"
  using n_busy_update[of i ws w] by simp

lemma step_inflight_inv:
  assumes "inflight_inv s" "step tel e s = Some s'"
  shows "inflight_inv s'"
  using assms(2,1)
proof (cases rule: step_cases)
  case (join c)
  then show ?thesis using assms(1) by (simp add: inflight_inv_def n_busy_all_returned n_busy_Nil)
next
  case (release i)
  then have "Suc (n_busy (m_workers s')) = n_busy (m_workers s)"
    by (simp add: n_busy_leave)
  then have "(of_nat (n_busy (m_workers s)) :: 64 word) = of_nat (n_busy (m_workers s')) + 1"
    by (metis of_nat_Suc add.commute)
  with release assms(1) show ?thesis by (simp add: inflight_inv_def)
qed (simp_all add: inflight_inv_def n_busy_same n_busy_enter)

lemma inflight_inv_ctor: "inflight_inv (JobSystem_ctor cfg hc)"
proof -
  have "filter (\<lambda>w. busy (pc w)) (replicate n \<lparr> pc = W_Wait, stop_requested = False \<rparr>) = []" for n
    by (induction n) auto
  then show ?thesis
    by (simp add: inflight_inv_def JobSystem_ctor_def Let_def n_busy_def)
qed

lemma run_inflight_inv: "run tel es (JobSystem_ctor cfg hc) = Some s \<Longrightarrow> inflight_inv s"
  by (rule run_invariant[where P = inflight_inv, OF step_inflight_inv inflight_inv_ctor])

lemma step_workers_inv:
  assumes "workers_inv n s" "stop_inv s" "step tel e s = Some s'"
  shows "workers_inv n s'"
  using assms(3)
proof (cases rule: step_cases)
  case (join c)
  then have "\<not> m_accepting s" using stop_invD[OF assms(2), of c] by simp
  with join show ?thesis by (simp add: workers_inv_def)
qed (use assms(1) in \<open>auto simp: workers_inv_def\<close>)

lemma run_workers_inv:
  "run tel es (JobSystem_ctor cfg hc) = Some s \<Longrightarrow>
   workers_inv (ResolveThreadCount (workerThreads cfg) hc) s"
proof -
  let ?n = "ResolveThreadCount (workerThreads cfg) hc"
  assume r: "run tel es (JobSystem_ctor cfg hc) = Some s"
  have "workers_inv ?n s \<and> stop_inv s"
  proof (rule run_invariant[where P = "\<lambda>s. workers_inv ?n s \<and> stop_inv s", OF _ _ r])
    show "workers_inv ?n (JobSystem_ctor cfg hc) \<and> stop_inv (JobSystem_ctor cfg hc)"
      by (simp add: stop_inv_ctor) (simp add: workers_inv_def JobSystem_ctor_def Let_def)
  qed (auto intro: step_workers_inv step_stop_inv)
  then show ?thesis ..
qed

lemma list_all_update: "list_all P xs \<Longrightarrow> P y \<Longrightarrow> list_all P (xs[i := y])"
  by (induction xs arbitrary: i) (auto split: nat.splits)

lemma list_all_nth: "list_all P xs \<Longrightarrow> i < length xs \<Longrightarrow> P (xs ! i)"
  by (simp add: list_all_length)

lemma step_alive:
  assumes "list_all alive (m_workers s)" "step tel e s = Some s'"
  shows "list_all alive (m_workers s')"
proof -
  have nth: "\<forall>i < length (m_workers s). alive (m_workers s ! i)"
    using assms(1) by (simp add: list_all_length)
  from assms(2) show ?thesis
    by (cases rule: step_cases)
       (use assms(1) nth in \<open>auto intro!: list_all_update simp: alive_def\<close>)
qed

lemma alive_ctor: "list_all alive (m_workers (JobSystem_ctor cfg hc))"
  by (simp add: JobSystem_ctor_def Let_def list_all_iff alive_def)

lemma run_alive: "run tel es (JobSystem_ctor cfg hc) = Some s \<Longrightarrow> list_all alive (m_workers s)"
  by (rule run_invariant[where P = "\<lambda>s. list_all alive (m_workers s)", OF step_alive alive_ctor])

lemma dtor_invD: "dtor_inv s \<Longrightarrow> destroying (callers s c) \<Longrightarrow> \<not> m_accepting s"
  by (auto simp: dtor_inv_def)

lemma dtor_inv_update:
  assumes "dtor_inv s" "destroying p \<longrightarrow> \<not> m_accepting s"
      and "m_accepting s' \<longrightarrow> m_accepting s" "callers s' = (callers s)(c := p)"
  shows "dtor_inv s'"
  unfolding dtor_inv_def
proof (intro allI impI)
  fix a
  assume d: "destroying (callers s' a)"
  show "\<not> m_accepting s'"
  proof (cases "a = c")
    case True
    with d assms(2,3,4) show ?thesis by auto
  next
    case False
    with d assms(4) have "destroying (callers s a)" by simp
    with dtor_invD[OF assms(1)] assms(3) show ?thesis by blast
  qed
qed

lemma dtor_inv_frame:
  "dtor_inv s \<Longrightarrow> m_accepting s' \<longrightarrow> m_accepting s \<Longrightarrow> callers s' = callers s \<Longrightarrow> dtor_inv s'"
  by (auto simp: dtor_inv_def)

lemma step_dtor_inv:
  assumes "dtor_inv s" "step tel e s = Some s'"
  shows "dtor_inv s'"
  using assms(2)
proof (cases rule: step_cases)
  case (caller c p n)
  have "destroying p \<longrightarrow> \<not> m_accepting s"
    using caller(9) dtor_invD[OF assms(1), of c] by blast
  then show ?thesis
    by (rule dtor_inv_update[OF assms(1)]) (simp_all add: caller(5))
next
  case (cas c m)
  then show ?thesis by (simp add: dtor_inv_def)
next
  case (enqueue c item)
  show ?thesis
    by (rule dtor_inv_update[OF assms(1), of "C_Returned (RBool True)" _ c]) (simp_all add: enqueue(4))
next
  case (clear c)
  show ?thesis
    by (rule dtor_inv_update[OF assms(1), of "C_Stop_Request CancelPending 0" _ c])
       (simp_all add: clear(3))
next
  case (request c m i)
  show ?thesis
    by (rule dtor_inv_update[OF assms(1), of "C_Stop_Request m (i + 1)" _ c])
       (simp_all add: request(4))
next
  case (join c)
  show ?thesis
    by (rule dtor_inv_update[OF assms(1), of "C_Returned RVoid" _ c]) (simp_all add: join(4))
next
  case (dtor c i)
  have "\<not> m_accepting s" using dtor_invD[OF assms(1), of c] dtor(2) by simp
  then have "destroying (C_Dtor_Join i) \<longrightarrow> \<not> m_accepting s" by simp
  then show ?thesis
    by (rule dtor_inv_update[OF assms(1)]) (simp_all add: dtor(4))
qed (rule dtor_inv_frame[OF assms(1)]; simp)+

lemma dtor_inv_ctor: "dtor_inv (JobSystem_ctor cfg hc)"
  by (simp add: dtor_inv_def JobSystem_ctor_def Let_def)

lemma run_dtor_inv: "run tel es (JobSystem_ctor cfg hc) = Some s \<Longrightarrow> dtor_inv s"
  by (rule run_invariant[where P = dtor_inv, OF step_dtor_inv dtor_inv_ctor])

lemma shutdown_inv_update:
  assumes "shutdown_inv s" "stopping (callers s c) \<longrightarrow> stopping p"
      and "m_accepting s' = m_accepting s" "callers s' = (callers s)(c := p)"
      and "m_workers s = [] \<longrightarrow> m_workers s' = []"
  shows "shutdown_inv s'"
proof -
  have "\<exists>b. stopping (callers s' b)" if "stopping (callers s a)" for a
  proof (cases "a = c")
    case True
    with that assms(2,4) have "stopping (callers s' c)" by simp
    then show ?thesis ..
  next
    case False
    with that assms(4) have "stopping (callers s' a)" by simp
    then show ?thesis ..
  qed
  with assms(1,3,5) show ?thesis by (auto simp: shutdown_inv_def)
qed

lemma shutdown_inv_frame:
  "shutdown_inv s \<Longrightarrow> m_accepting s' = m_accepting s \<Longrightarrow> callers s' = callers s \<Longrightarrow>
   (m_workers s = [] \<longrightarrow> m_workers s' = []) \<Longrightarrow> shutdown_inv s'"
  by (auto simp: shutdown_inv_def)

lemma shutdown_inv_stopping: "stopping (callers s c) \<Longrightarrow> shutdown_inv s"
  by (auto simp: shutdown_inv_def)

lemma step_shutdown_inv:
  assumes "shutdown_inv s" "step tel e s = Some s'"
  shows "shutdown_inv s'"
  using assms(2)
proof (cases rule: step_cases)
  case (caller c p n)
  show ?thesis
    by (rule shutdown_inv_update[OF assms(1) caller(8)]) (simp_all add: caller(5))
next
  case (cas c m)
  show ?thesis by (rule shutdown_inv_stopping[of _ c]) (simp add: cas(3))
next
  case (enqueue c item)
  show ?thesis
    by (rule shutdown_inv_update[OF assms(1), of c "C_Returned (RBool True)"])
       (simp_all add: enqueue)
next
  case (clear c)
  show ?thesis by (rule shutdown_inv_stopping[of _ c]) (simp add: clear(3))
next
  case (request c m i)
  show ?thesis by (rule shutdown_inv_stopping[of _ c]) (simp add: request(4))
next
  case (join c)
  then show ?thesis by (simp add: shutdown_inv_def)
next
  case (dtor c i)
  show ?thesis
    by (rule shutdown_inv_update[OF assms(1), of c "C_Dtor_Join i"]) (simp_all add: dtor)
qed (rule shutdown_inv_frame[OF assms(1)]; simp)+

lemma shutdown_inv_ctor: "shutdown_inv (JobSystem_ctor cfg hc)"
  by (simp add: shutdown_inv_def JobSystem_ctor_def Let_def)

lemma run_shutdown_inv: "run tel es (JobSystem_ctor cfg hc) = Some s \<Longrightarrow> shutdown_inv s"
  by (rule run_invariant[where P = shutdown_inv, OF step_shutdown_inv shutdown_inv_ctor])

section \<open>WaitIdle\<close>

lemma run_no_stop_accepting:
  "run tel es s = Some s' \<Longrightarrow> \<not> list_ex is_stop_call es \<Longrightarrow> m_accepting s \<Longrightarrow> m_accepting s'"
proof (induction es arbitrary: s)
  case Nil
  then show ?case by simp
next
  case (Cons e es)
  then obtain s1 where s1: "step tel e s = Some s1" and r: "run tel es s1 = Some s'"
    by (auto split: option.splits)
  from Cons.prems have ns: "\<not> is_stop_call e" "\<not> list_ex is_stop_call es" by auto
  from step_accepting_keep[OF s1 ns(1) Cons.prems(3)] Cons.IH[OF r ns(2)] show ?case by blast
qed

lemma cancel_is_stop: "is_cancel_call e \<Longrightarrow> is_stop_call e"
  by (cases e rule: is_cancel_call.cases) auto

lemma no_stop_no_cancel: "\<not> list_ex is_stop_call es \<Longrightarrow> \<not> list_ex is_cancel_call es"
  by (auto simp: list_ex_iff dest: cancel_is_stop)

lemma n_busy_le_length: "n_busy ws \<le> length ws"
  by (simp add: n_busy_def)

lemma n_done_le_n_busy: "n_done ws \<le> n_busy ws"
  by (induction ws) (auto simp: n_done_def n_busy_def)

lemma workers_inv_length: "workers_inv n s \<Longrightarrow> length (m_workers s) < 2 ^ 32"
proof -
  have "unat n < 2 ^ 32" using unsigned_less[of n] by simp
  then show "workers_inv n s \<Longrightarrow> length (m_workers s) < 2 ^ 32"
    by (auto simp: workers_inv_def)
qed

lemma idle_no_busy:
  assumes "inflight_inv s" "workers_inv n s" "m_inFlight s = 0"
  shows "n_busy (m_workers s) = 0"
proof -
  have "n_busy (m_workers s) < 2 ^ 32"
    using n_busy_le_length[of "m_workers s"] workers_inv_length[OF assms(2)] by simp
  also have "(2::nat) ^ 32 < 2 ^ 64" by simp
  finally have small: "n_busy (m_workers s) < 2 ^ LENGTH(64)" by simp
  from assms(1,3) have "(of_nat (n_busy (m_workers s)) :: 64 word) = 0"
    by (simp add: inflight_inv_def)
  then have "2 ^ LENGTH(64) dvd n_busy (m_workers s)"
    by (simp only: word_of_nat_eq_0_iff)
  with small show ?thesis by (auto dest: dvd_imp_le)
qed

lemma idle_run:
  "run False idle_schedule one_worker =
     Some \<lparr> m_cfg = \<lparr> workerThreads = 1 \<rparr>, m_queue = [], m_accepting = True,
            m_inFlight = 0, m_submitted = 2, m_completed = 2,
            m_workers = [\<lparr> pc = W_Wait, stop_requested = False \<rparr>],
            m_nextTaskId = 1,
            callers = (\<lambda>_. C_Idle)(0 := C_Returned (RBool True), 1 := C_WaitIdle) \<rparr>"
  by (simp add: idle_schedule_def one_worker_def exec_simps)

text \<open>
  C4. Along a schedule without any call of \<^verbatim>\<open>Stop\<close> (or of the destructor), a thread
  inside \<^verbatim>\<open>WaitIdle\<close> can return exactly in the states where the queue is empty and
  \<^verbatim>\<open>m_inFlight\<close> is 0, both read in the same state; and in the state in which it
  returns, \<open>completed = submitted\<close>, the queue is empty and nothing is in flight.
\<close>

theorem WaitIdle_returns_idle:
  assumes "run tel es (JobSystem_ctor cfg hc) = Some s"
      and "\<not> list_ex is_stop_call es"
      and "callers s c = C_WaitIdle"
  shows "(step tel (Resume c) s \<noteq> None \<longleftrightarrow> m_queue s = [] \<and> m_inFlight s = 0)
         \<and> (\<forall>s'. step tel (Resume c) s = Some s' \<longrightarrow>
               callers s' c = C_Returned RVoid
               \<and> m_completed s' = m_submitted s' \<and> m_queue s' = [] \<and> m_inFlight s' = 0
               \<and> queued (GetStats s') = 0)"
proof (intro conjI allI impI)
  show "step tel (Resume c) s \<noteq> None \<longleftrightarrow> m_queue s = [] \<and> m_inFlight s = 0"
    using assms(3) by (simp add: WaitIdle_def WaitIdle_pred_def)
next
  fix s'
  assume st: "step tel (Resume c) s = Some s'"
  with assms(3) have idle: "m_queue s = []" "m_inFlight s = 0" and s': "s' = ret c RVoid s"
    by (auto simp: WaitIdle_def WaitIdle_pred_def split: if_splits)
  have "n_busy (m_workers s) = 0"
    using idle_no_busy[OF run_inflight_inv[OF assms(1)] run_workers_inv[OF assms(1)] idle(2)] .
  then have nd: "n_done (m_workers s) = 0"
    using n_done_le_n_busy[of "m_workers s"] by simp
  have d0: "discarded tel es (JobSystem_ctor cfg hc) = 0"
    using run_no_cancel[OF assms(1) no_stop_no_cancel[OF assms(2)] no_clearing_ctor] by simp
  have "balance s = 0"
    using run_balance[OF assms(1)] d0 by (simp add: balance_ctor)
  with nd idle have eq: "m_completed s = m_submitted s"
    by (simp add: balance_def)
  show "callers s' c = C_Returned RVoid" by (simp add: s' ret_def goto_def)
  show "m_completed s' = m_submitted s'" using eq by (simp add: s' ret_def goto_def)
  show "m_queue s' = []" using idle by (simp add: s' ret_def goto_def)
  show "m_inFlight s' = 0" using idle by (simp add: s' ret_def goto_def)
  show "queued (GetStats s') = 0" using idle by (simp add: s' ret_def goto_def GetStats_def)
qed

theorem WaitIdle_returns_idle_witness:
  "run False idle_schedule one_worker \<noteq> None
   \<and> \<not> list_ex is_stop_call idle_schedule
   \<and> callers (the (run False idle_schedule one_worker)) 1 = C_WaitIdle
   \<and> step False (Resume 1) (the (run False idle_schedule one_worker)) \<noteq> None
   \<and> m_completed (the (step False (Resume 1) (the (run False idle_schedule one_worker)))) = 2
   \<and> m_submitted (the (step False (Resume 1) (the (run False idle_schedule one_worker)))) = 2"
proof -
  let ?s = "the (run False idle_schedule one_worker)"
  have r: "run False idle_schedule one_worker = Some ?s" by (simp add: idle_run)
  have r0: "run False idle_schedule one_worker \<noteq> None" by (simp add: idle_run)
  have ns: "\<not> list_ex is_stop_call idle_schedule" by (simp add: idle_schedule_def)
  have w: "callers ?s 1 = C_WaitIdle" by (simp add: idle_run)
  have idle: "m_queue ?s = [] \<and> m_inFlight ?s = 0" by (simp add: idle_run)
  have sub: "m_submitted ?s = 2" by (simp add: idle_run)
  note th = WaitIdle_returns_idle[of False idle_schedule "\<lparr> workerThreads = 1 \<rparr>" 0,
      folded one_worker_def, OF r ns w]
  from th idle have en: "step False (Resume 1) ?s \<noteq> None" by blast
  then obtain s' where s': "step False (Resume 1) ?s = Some s'" by blast
  with th have "m_completed s' = m_submitted s'" by blast
  moreover have "m_submitted s' = 2" using s' w sub by (auto simp: WaitIdle_def ret_def goto_def split: if_splits)
  ultimately show ?thesis using r0 ns w en s' by simp
qed

section \<open>Exceptions of tasks\<close>

lemma throw_run:
  "run False throw_schedule one_worker =
     Some \<lparr> m_cfg = \<lparr> workerThreads = 1 \<rparr>, m_queue = [], m_accepting = True,
            m_inFlight = 1, m_submitted = 1, m_completed = 0,
            m_workers = [\<lparr> pc = W_Exec \<lparr> fn = Fn Throws, id_tel = 0, label = None \<rparr>,
                           stop_requested = False \<rparr>],
            m_nextTaskId = 1,
            callers = (\<lambda>_. C_Idle)(0 := C_Returned (RBool True)) \<rparr>"
  by (simp add: throw_schedule_def one_worker_def exec_simps)

text \<open>
  C5. A worker that runs a task whose callable throws goes on to the end of the
  \<^verbatim>\<open>try\<close> block as after a normal return (the exception is caught and dropped), then
  increments \<^verbatim>\<open>m_completed\<close>, decrements \<^verbatim>\<open>m_inFlight\<close> and is back at the top of its
  loop. In every reachable state no worker has been terminated by an exception, and a
  worker has left its loop only if its stop token was set.
\<close>

theorem exception_contained:
  assumes "run tel es (JobSystem_ctor cfg hc) = Some s"
      and "i < length (m_workers s)"
      and "pc (m_workers s ! i) = W_Exec task"
      and "invoke (fn task) = Exception"
  shows "step tel (Work i) s = Some (set_pc i W_Ran s)
         \<and> run tel [Work i, Work i, Work i] s
             = Some (set_pc i W_Wait
                      (s\<lparr> m_inFlight := m_inFlight s - 1, m_completed := m_completed s + 1 \<rparr>))
         \<and> list_all alive (m_workers s)"
proof (intro conjI)
  show "step tel (Work i) s = Some (set_pc i W_Ran s)"
    using assms(2,3,4) by (simp add: WorkerLoop_def Let_def)
  show "run tel [Work i, Work i, Work i] s
          = Some (set_pc i W_Wait
                   (s\<lparr> m_inFlight := m_inFlight s - 1, m_completed := m_completed s + 1 \<rparr>))"
    using assms(2,3,4) by (simp add: WorkerLoop_def Let_def set_pc_def)
  show "list_all alive (m_workers s)"
    using run_alive[OF assms(1)] .
qed

theorem exception_contained_witness:
  "run False throw_schedule one_worker \<noteq> None
   \<and> 0 < length (m_workers (the (run False throw_schedule one_worker)))
   \<and> pc (m_workers (the (run False throw_schedule one_worker)) ! 0)
       = W_Exec \<lparr> fn = Fn Throws, id_tel = 0, label = None \<rparr>
   \<and> invoke (fn \<lparr> fn = Fn Throws, id_tel = 0, label = None \<rparr>) = Exception
   \<and> map_option m_completed
        (run False [Work 0, Work 0, Work 0] (the (run False throw_schedule one_worker))) = Some 1
   \<and> map_option (\<lambda>s. map pc (m_workers s))
        (run False [Work 0, Work 0, Work 0] (the (run False throw_schedule one_worker))) = Some [W_Wait]"
proof -
  let ?s = "the (run False throw_schedule one_worker)"
  let ?t = "\<lparr> fn = Fn Throws, id_tel = 0, label = None \<rparr>"
  have r: "run False throw_schedule one_worker = Some ?s" by (simp add: throw_run)
  have r0: "run False throw_schedule one_worker \<noteq> None" by (simp add: throw_run)
  have len: "0 < length (m_workers ?s)" by (simp add: throw_run)
  have at: "pc (m_workers ?s ! 0) = W_Exec ?t" by (simp add: throw_run)
  have thr: "invoke (fn ?t) = Exception" by simp
  have c0: "m_completed ?s = 0" by (simp add: throw_run)
  note th = exception_contained[of False throw_schedule "\<lparr> workerThreads = 1 \<rparr>" 0,
      folded one_worker_def, OF r len at thr]
  then have "run False [Work 0, Work 0, Work 0] ?s
              = Some (set_pc 0 W_Wait (?s\<lparr> m_inFlight := m_inFlight ?s - 1, m_completed := m_completed ?s + 1 \<rparr>))"
    by blast
  then have "map_option m_completed (run False [Work 0, Work 0, Work 0] ?s) = Some 1"
    and "map_option (\<lambda>s. map pc (m_workers s)) (run False [Work 0, Work 0, Work 0] ?s) = Some [W_Wait]"
    by (simp_all add: throw_run set_pc_def)
  with r0 len at thr show ?thesis by blast
qed

section \<open>Shutdown\<close>

lemma drain_run:
  "run False drain_schedule one_worker =
     Some \<lparr> m_cfg = \<lparr> workerThreads = 1 \<rparr>, m_queue = [], m_accepting = False,
            m_inFlight = 0, m_submitted = 0, m_completed = 0,
            m_workers = [\<lparr> pc = W_Returned, stop_requested = True \<rparr>],
            m_nextTaskId = 1,
            callers = (\<lambda>_. C_Idle)(0 := C_Stop_Join) \<rparr>"
  by (simp add: drain_schedule_def one_worker_def exec_simps)

lemma stopped_run:
  "run False stopped_schedule one_worker =
     Some \<lparr> m_cfg = \<lparr> workerThreads = 1 \<rparr>, m_queue = [], m_accepting = False,
            m_inFlight = 0, m_submitted = 0, m_completed = 0,
            m_workers = [],
            m_nextTaskId = 1,
            callers = (\<lambda>_. C_Idle)(0 := C_Returned RVoid) \<rparr>"
  by (simp add: stopped_schedule_def drain_schedule_def one_worker_def exec_simps)

lemma step_stop_call:
  assumes "step tel e s = Some s'" "is_stop_call e"
  shows "\<not> m_accepting s'"
  using assms(2,1)
  by (cases e rule: is_stop_call.cases)
     (auto simp: Stop_def JobSystem_dtor_def goto_def ret_def split: if_splits)

lemma run_stop_call:
  "run tel es s = Some s' \<Longrightarrow> list_ex is_stop_call es \<Longrightarrow> \<not> m_accepting s'"
proof (induction es arbitrary: s)
  case Nil
  then show ?case by simp
next
  case (Cons e es)
  then obtain s1 where s1: "step tel e s = Some s1" and r: "run tel es s1 = Some s'"
    by (auto split: option.splits)
  show ?case
  proof (cases "is_stop_call e")
    case True
    from run_accepting_mono[OF r step_stop_call[OF s1 True]] show ?thesis .
  next
    case False
    with Cons.prems have "list_ex is_stop_call es" by simp
    from Cons.IH[OF r this] show ?thesis .
  qed
qed

lemma rejected:
  assumes "\<not> m_accepting s"
  shows "\<not> in_call (callers s c) \<Longrightarrow> step tel (Call c (Call_Submit t)) s = Some (ret c (RBool False) s)"
    and "\<not> in_call (callers s c) \<Longrightarrow> step tel (Call c (Call_SubmitLabeled l t)) s = Some (ret c (RBool False) s)"
    and "callers s c = C_SubmitLabeled_Lock item \<Longrightarrow> step tel (Resume c) s = Some (ret c (RBool False) s)"
  using assms by (simp_all add: Submit_def SubmitLabeled_def SubmitLabeled_locked_def)

text \<open>
  C6. \<^verbatim>\<open>m_accepting\<close> is true after construction. Once a call of \<^verbatim>\<open>Stop\<close> (with
  either mode, by its failed compare-exchange or after the join; or the destructor) has
  returned, \<^verbatim>\<open>m_accepting\<close> is false in that
  state and in every state reached later, and there every \<^verbatim>\<open>Submit\<close> and
  \<^verbatim>\<open>SubmitLabeled\<close> returns false without changing the scheduler, as does a submission
  that had passed the fast path and now runs its critical section. In any run, once
  \<^verbatim>\<open>m_accepting\<close> is false it is false in every later state.
\<close>

theorem Submit_false_after_Stop:
  assumes "run tel es (JobSystem_ctor cfg hc) = Some s0"
      and "step tel e s0 = Some s"
      and "(\<exists>m. e = Call c (Call_Stop m))
             \<or> (e = Resume c \<and> (\<exists>i. callers s0 c = C_Dtor_Request i))
             \<or> (e = Resume c \<and> callers s0 c = C_Stop_Join)"
      and "callers s c = C_Returned RVoid"
      and "run tel es' s = Some s'"
  shows "m_accepting (JobSystem_ctor cfg hc) \<and> \<not> m_accepting s \<and> \<not> m_accepting s'
         \<and> (\<not> in_call (callers s' c') \<longrightarrow>
               step tel (Call c' (Call_Submit t)) s' = Some (ret c' (RBool False) s')
               \<and> step tel (Call c' (Call_SubmitLabeled l t)) s' = Some (ret c' (RBool False) s'))
         \<and> (callers s' c' = C_SubmitLabeled_Lock item \<longrightarrow>
               step tel (Resume c') s' = Some (ret c' (RBool False) s'))
         \<and> (\<forall>es1 s1 es2 s2.
               run tel es1 (JobSystem_ctor cfg hc) = Some s1 \<longrightarrow> \<not> m_accepting s1 \<longrightarrow>
               run tel es2 s1 = Some s2 \<longrightarrow> \<not> m_accepting s2)"
proof -
  have init: "m_accepting (JobSystem_ctor cfg hc)"
    by (simp add: JobSystem_ctor_def Let_def)
  have na: "\<not> m_accepting s"
  proof (rule ccontr)
    assume "\<not> \<not> m_accepting s"
    then have acc: "m_accepting s" by simp
    then have acc0: "m_accepting s0" using step_accepting_mono[OF assms(2)] by blast
    from assms(3) show False
    proof (elim disjE exE conjE)
      fix m assume "e = Call c (Call_Stop m)"
      with assms(2) have "s = Stop c m s0" by (simp split: if_splits)
      with acc0 have "callers s c = C_Stop_Clear m" by (simp add: Stop_def goto_def)
      with assms(4) show False by simp
    next
      fix i assume "e = Resume c" "callers s0 c = C_Dtor_Request i"
      then show False using dtor_invD[OF run_dtor_inv[OF assms(1)], of c] acc0 by simp
    next
      assume "e = Resume c" "callers s0 c = C_Stop_Join"
      then show False using stop_invD[OF run_stop_inv[OF assms(1)], of c] acc0 by simp
    qed
  qed
  have na': "\<not> m_accepting s'" using run_accepting_mono[OF assms(5) na] .
  have mono: "\<forall>es1 s1 es2 s2.
               run tel es1 (JobSystem_ctor cfg hc) = Some s1 \<longrightarrow> \<not> m_accepting s1 \<longrightarrow>
               run tel es2 s1 = Some s2 \<longrightarrow> \<not> m_accepting s2"
    using run_accepting_mono by blast
  from init na na' rejected[OF na'] mono show ?thesis by blast
qed

theorem Submit_false_after_Stop_witness:
  "run False drain_schedule one_worker \<noteq> None
   \<and> step False (Resume 0) (the (run False drain_schedule one_worker)) \<noteq> None
   \<and> callers (the (run False drain_schedule one_worker)) 0 = C_Stop_Join
   \<and> callers (the (step False (Resume 0) (the (run False drain_schedule one_worker)))) 0 = C_Returned RVoid
   \<and> run False [] (the (step False (Resume 0) (the (run False drain_schedule one_worker)))) \<noteq> None
   \<and> \<not> in_call (callers (the (step False (Resume 0) (the (run False drain_schedule one_worker)))) 1)
   \<and> map_option (\<lambda>s. callers s 1)
        (step False (Call 1 (Call_Submit (Fn Returns)))
           (the (step False (Resume 0) (the (run False drain_schedule one_worker)))))
       = Some (C_Returned (RBool False))"
proof -
  let ?pre = "the (run False drain_schedule one_worker)"
  let ?s = "the (step False (Resume 0) ?pre)"
  have r: "run False drain_schedule one_worker = Some ?pre" by (simp add: drain_run)
  have r0: "run False drain_schedule one_worker \<noteq> None" by (simp add: drain_run)
  have st0: "step False (Resume 0) ?pre \<noteq> None" by (simp add: drain_run Stop_join_def)
  note st = option.collapse[OF st0, symmetric]
  have j: "callers ?pre 0 = C_Stop_Join" by (simp add: drain_run)
  have hyp: "(\<exists>m. Resume 0 = Call 0 (Call_Stop m))
             \<or> (Resume 0 = Resume 0 \<and> (\<exists>i. callers ?pre 0 = C_Dtor_Request i))
             \<or> (Resume 0 = Resume 0 \<and> callers ?pre 0 = C_Stop_Join)"
    using j by simp
  have rv: "callers ?s 0 = C_Returned RVoid" by (simp add: drain_run Stop_join_def ret_def goto_def)
  have r': "run False [] ?s = Some ?s" by simp
  have idle: "\<not> in_call (callers ?s 1)" by (simp add: drain_run Stop_join_def ret_def goto_def)
  note th = Submit_false_after_Stop[of False drain_schedule "\<lparr> workerThreads = 1 \<rparr>" 0 _ "Resume 0" _ 0 "[]" _ 1 "Fn Returns",
      folded one_worker_def, OF r st hyp rv r']
  with idle have "step False (Call 1 (Call_Submit (Fn Returns))) ?s = Some (ret 1 (RBool False) ?s)"
    by blast
  then have "map_option (\<lambda>s. callers s 1) (step False (Call 1 (Call_Submit (Fn Returns))) ?s)
               = Some (C_Returned (RBool False))"
    by (simp add: ret_def goto_def)
  with r0 st0 j rv idle show ?thesis by simp
qed

section \<open>Worker count\<close>

lemma step_join_length:
  assumes "step tel e s = Some s'"
  shows "(join_of e s = [] \<and> length (m_workers s') = length (m_workers s))
         \<or> (join_of e s \<noteq> [] \<and> m_workers s' = [])"
proof (cases e)
  case (Call c a)
  with assms show ?thesis
    by (cases a)
       (auto simp: join_of_def Submit_def SubmitLabeled_def Stop_def JobSystem_dtor_def
                   goto_def ret_def split: if_splits)
next
  case (Resume c)
  with assms show ?thesis
    by (cases "callers s c")
       (auto simp: join_of_def SubmitLabeled_locked_def WaitIdle_def Stop_locked_def
                   Stop_request_stop_def Stop_wait_def Stop_join_def dtor_request_stop_def
                   dtor_join_def goto_def ret_def
             split: if_splits)
next
  case (Work i)
  with assms show ?thesis
    by (cases rule: step_cases) (auto simp: join_of_def)
qed

lemma step_workers_Nil:
  assumes "step tel e s = Some s'" "m_workers s = []"
  shows "m_workers s' = []"
  using assms by (cases rule: step_cases) auto

lemma run_workers_Nil: "run tel es s = Some s' \<Longrightarrow> m_workers s = [] \<Longrightarrow> m_workers s' = []"
  by (rule run_invariant[where P = "\<lambda>s. m_workers s = []"]) (auto dest: step_workers_Nil)

lemma run_joined:
  "run tel es s = Some s' \<Longrightarrow>
   (if joined tel es s = [] then length (m_workers s') = length (m_workers s) else m_workers s' = [])"
proof (induction es arbitrary: s)
  case Nil
  then show ?case by (simp add: joined_def)
next
  case (Cons e es)
  then obtain s1 where s1: "step tel e s = Some s1" and r: "run tel es s1 = Some s'"
    by (auto split: option.splits)
  have j: "joined tel (e # es) s = join_of e s @ joined tel es s1"
    using s1 by (simp add: joined_def)
  from step_join_length[OF s1] show ?case
  proof
    assume a: "join_of e s = [] \<and> length (m_workers s1) = length (m_workers s)"
    with Cons.IH[OF r] j show ?thesis by (simp split: if_splits)
  next
    assume a: "join_of e s \<noteq> [] \<and> m_workers s1 = []"
    with run_workers_Nil[OF r] j show ?thesis by simp
  qed
qed

lemma ResolveThreadCount_pos: "1 \<le> ResolveThreadCount requested hc"
  by (auto simp: ResolveThreadCount_def word_le_nat_alt unat_gt_0 Suc_le_eq)

text \<open>
  C8 (as amended). \<^verbatim>\<open>ResolveThreadCount\<close> yields \<^verbatim>\<open>config.workerThreads\<close> when that is
  non-zero, else the hardware concurrency, or 1 if that is 0; it is at least 1. The worker
  count reported by \<^verbatim>\<open>GetStats\<close> is this number in every state reached before a call of
  \<^verbatim>\<open>Stop\<close> has joined the workers and cleared \<^verbatim>\<open>m_workers\<close>; from then on it is 0.
\<close>

theorem GetStats_workerCount:
  assumes "run tel es (JobSystem_ctor cfg hc) = Some s"
  shows "workerCount (GetStats s)
           = (if joined tel es (JobSystem_ctor cfg hc) = []
              then ResolveThreadCount (workerThreads cfg) hc else 0)
         \<and> ResolveThreadCount (workerThreads cfg) hc
           = (if workerThreads cfg \<noteq> 0 then workerThreads cfg else if hc = 0 then 1 else hc)
         \<and> 1 \<le> ResolveThreadCount (workerThreads cfg) hc"
proof -
  have "length (m_workers (JobSystem_ctor cfg hc)) = unat (ResolveThreadCount (workerThreads cfg) hc)"
    by (simp add: JobSystem_ctor_def Let_def)
  with run_joined[OF assms]
  have "workerCount (GetStats s)
           = (if joined tel es (JobSystem_ctor cfg hc) = []
              then ResolveThreadCount (workerThreads cfg) hc else 0)"
    by (simp add: GetStats_def split: if_splits)
  then show ?thesis
    by (simp add: ResolveThreadCount_pos) (simp add: ResolveThreadCount_def)
qed

theorem GetStats_workerCount_witness:
  "run False drain_schedule one_worker \<noteq> None
   \<and> joined False drain_schedule one_worker = []
   \<and> workerCount (GetStats (the (run False drain_schedule one_worker))) = 1"
proof -
  let ?s = "the (run False drain_schedule one_worker)"
  have r: "run False drain_schedule one_worker = Some ?s" by (simp add: drain_run)
  have r0: "run False drain_schedule one_worker \<noteq> None" by (simp add: drain_run)
  have j: "joined False drain_schedule one_worker = []"
    by (simp add: joined_def join_of_def drain_schedule_def one_worker_def exec_simps)
  note th = GetStats_workerCount[of False drain_schedule "\<lparr> workerThreads = 1 \<rparr>" 0,
      folded one_worker_def, OF r]
  with j have "workerCount (GetStats ?s) = ResolveThreadCount 1 0" by simp
  then have "workerCount (GetStats ?s) = 1" by (simp add: ResolveThreadCount_def)
  with r0 j show ?thesis by blast
qed

text \<open>
  C8 as stated fails after a completed shutdown: with \<^verbatim>\<open>workerThreads = 1\<close>, once
  \<^verbatim>\<open>Stop(Drain)\<close> has returned \<^verbatim>\<open>GetStats\<close> reports 0 workers.
\<close>

theorem workerCount_counterexample:
  "workerThreads (m_cfg one_worker) = 1
   \<and> map_option (workerCount \<circ> GetStats) (run False stopped_schedule one_worker) = Some 0"
  by (simp add: stopped_run GetStats_def) (simp add: one_worker_def JobSystem_ctor_def)

section \<open>The discard of Stop(CancelPending)\<close>

lemma single_stopperD:
  "single_stopper s \<Longrightarrow> stopping (callers s c) \<Longrightarrow> c' \<noteq> c \<Longrightarrow> \<not> stopping (callers s c')"
  by (auto simp: single_stopper_def)

lemma single_stopper_update:
  assumes "single_stopper s" "stopping p \<longrightarrow> stopping (callers s c)"
  shows "single_stopper (s\<lparr> callers := (callers s)(c := p) \<rparr>)"
  unfolding single_stopper_def
proof (intro allI impI)
  fix a b
  assume a: "stopping (callers (s\<lparr> callers := (callers s)(c := p) \<rparr>) a)"
     and b: "stopping (callers (s\<lparr> callers := (callers s)(c := p) \<rparr>) b)"
  from a assms(2) have "stopping (callers s a)" by (cases "a = c") auto
  moreover from b assms(2) have "stopping (callers s b)" by (cases "b = c") auto
  ultimately show "a = b" using assms(1) by (auto simp: single_stopper_def)
qed

lemma single_stopper_frame:
  "callers s' = callers s \<Longrightarrow> single_stopper s \<Longrightarrow> single_stopper s'"
  by (simp add: single_stopper_def)

lemma single_stopper_callers:
  "single_stopper (s\<lparr> callers := f \<rparr>) \<Longrightarrow> callers s' = f \<Longrightarrow> single_stopper s'"
  by (simp add: single_stopper_def)

lemma step_single_stopper:
  assumes "stop_inv s" "single_stopper s" "step tel e s = Some s'"
  shows "single_stopper s'"
  using assms(3)
proof (cases rule: step_cases)
  case (caller c p n)
  show ?thesis
    by (rule single_stopper_callers[OF single_stopper_update[OF assms(2) caller(6)]])
       (simp add: caller(5))
next
  case (cas c m)
  have none: "\<not> stopping (callers s a)" for a
    using stop_invD[OF assms(1), of a] cas(2) by blast
  show ?thesis
    unfolding single_stopper_def
  proof (intro allI impI)
    fix a b
    assume "stopping (callers s' a)" "stopping (callers s' b)"
    with none[of a] none[of b] have "a = c" "b = c"
      by (auto simp: cas(3) split: if_splits)
    then show "a = b" by simp
  qed
next
  case (enqueue c item)
  show ?thesis
    by (rule single_stopper_callers[OF single_stopper_update[OF assms(2), of "C_Returned (RBool True)" c]])
       (simp_all add: enqueue(4))
next
  case (clear c)
  show ?thesis
    by (rule single_stopper_callers[OF single_stopper_update[OF assms(2), of "C_Stop_Request CancelPending 0" c]])
       (simp_all add: clear)
next
  case (request c m i)
  show ?thesis
    by (rule single_stopper_callers[OF single_stopper_update[OF assms(2), of "C_Stop_Request m (i + 1)" c]])
       (simp_all add: request)
next
  case (join c)
  show ?thesis
    by (rule single_stopper_callers[OF single_stopper_update[OF assms(2), of "C_Returned RVoid" c]])
       (simp_all add: join)
next
  case (dtor c i)
  show ?thesis
    by (rule single_stopper_callers[OF single_stopper_update[OF assms(2), of "C_Dtor_Join i" c]])
       (simp_all add: dtor)
qed (rule single_stopper_frame[OF _ assms(2)]; simp)+

lemma single_stopper_ctor: "single_stopper (JobSystem_ctor cfg hc)"
  by (simp add: single_stopper_def JobSystem_ctor_def Let_def)

lemma closed_update:
  assumes "closed s" "\<forall>m. p \<noteq> C_Stop_Clear m"
      and "m_accepting s' = m_accepting s" "callers s' = (callers s)(c := p)"
  shows "closed s'"
  unfolding closed_def
proof (intro conjI allI)
  show "\<not> m_accepting s'" using assms(1,3) by (simp add: closed_def)
  fix a m
  show "callers s' a \<noteq> C_Stop_Clear m"
    using assms(1,2,4) by (cases "a = c") (simp_all add: closed_def)
qed

lemma closed_frame:
  "closed s \<Longrightarrow> m_accepting s' = m_accepting s \<Longrightarrow> callers s' = callers s \<Longrightarrow> closed s'"
  by (simp add: closed_def)

lemma step_closed:
  assumes "closed s" "step tel e s = Some s'"
  shows "closed s'"
  using assms(2)
proof (cases rule: step_cases)
  case (caller c p n)
  show ?thesis by (rule closed_update[OF assms(1) caller(7)]) (simp_all add: caller(5))
next
  case (cas c m)
  with assms(1) show ?thesis by (simp add: closed_def)
next
  case (enqueue c item)
  with assms(1) show ?thesis by (simp add: closed_def)
next
  case (clear c)
  with assms(1) show ?thesis by (simp add: closed_def)
next
  case (request c m i)
  show ?thesis
    by (rule closed_update[OF assms(1), of "C_Stop_Request m (i + 1)" _ c]) (simp_all add: request(4))
next
  case (join c)
  show ?thesis
    by (rule closed_update[OF assms(1), of "C_Returned RVoid" _ c]) (simp_all add: join(4))
next
  case (dtor c i)
  show ?thesis
    by (rule closed_update[OF assms(1), of "C_Dtor_Join i" _ c]) (simp_all add: dtor(4))
qed (rule closed_frame[OF assms(1)]; simp)+

lemma run_closed: "run tel es s = Some s' \<Longrightarrow> closed s \<Longrightarrow> closed s'"
  by (rule run_invariant[where P = closed]) (auto intro: step_closed)

lemma clear_closed:
  assumes "stop_inv s" "single_stopper s" "callers s c = C_Stop_Clear CancelPending"
  shows "closed (Stop_locked c CancelPending s)"
proof -
  have na: "\<not> m_accepting s" using stop_invD[OF assms(1), of c] assms(3) by simp
  have "callers s c' \<noteq> C_Stop_Clear m" if "c' \<noteq> c" for c' m
    using single_stopperD[OF assms(2), of c c'] assms(3) that by auto
  with na show ?thesis
    by (auto simp: closed_def Stop_locked_def goto_def)
qed

lemma drop_of_cases:
  "drop_of e s \<noteq> [] \<Longrightarrow> \<exists>c. e = Resume c \<and> callers s c = C_Stop_Clear CancelPending"
  by (auto simp: drop_of_def split: event.splits caller_pc.splits StopMode.splits)

lemma run_not_closed_dropped:
  "run tel es s = Some s' \<Longrightarrow> stop_inv s \<Longrightarrow> single_stopper s \<Longrightarrow> \<not> closed s' \<Longrightarrow>
   dropped tel es s = []"
proof (induction es arbitrary: s)
  case Nil
  then show ?case by (simp add: dropped_def)
next
  case (Cons e es)
  then obtain s1 where s1: "step tel e s = Some s1" and r: "run tel es s1 = Some s'"
    by (auto split: option.splits)
  have d: "drop_of e s = []"
  proof (rule ccontr)
    assume "drop_of e s \<noteq> []"
    then obtain c where c: "e = Resume c" "callers s c = C_Stop_Clear CancelPending"
      using drop_of_cases by blast
    with s1 have "s1 = Stop_locked c CancelPending s" by simp
    with clear_closed[OF Cons.prems(2,3) c(2)] have "closed s1" by simp
    with run_closed[OF r] Cons.prems(4) show False by blast
  qed
  have "dropped tel es s1 = []"
    using Cons.IH[OF r step_stop_inv[OF Cons.prems(2) s1]
                    step_single_stopper[OF Cons.prems(2,3) s1] Cons.prems(4)] .
  with d s1 show ?case by (simp add: dropped_def)
qed

lemma closed_no_clearing: "closed s \<Longrightarrow> no_clearing s"
  by (simp add: closed_def no_clearing_def)

lemma run_closed_discarded:
  "run tel es s = Some s' \<Longrightarrow> closed s \<Longrightarrow> discarded tel es s = 0"
proof (induction es arbitrary: s)
  case Nil
  then show ?case by (simp add: discarded_def dropped_def)
next
  case (Cons e es)
  then obtain s1 where s1: "step tel e s = Some s1" and r: "run tel es s1 = Some s'"
    by (auto split: option.splits)
  from Cons.IH[OF r step_closed[OF Cons.prems(2) s1]] s1
       drop_of_no_clearing[OF closed_no_clearing[OF Cons.prems(2)]]
  show ?case by (simp add: discarded_def dropped_def)
qed

lemma step_cleared:
  assumes "cleared s" "step tel e s = Some s'"
  shows "cleared s'"
  using assms(2)
proof (cases rule: step_cases)
  case (cas c m)
  with assms(1) show ?thesis by (simp add: cleared_def)
next
  case (enqueue c item)
  with assms(1) show ?thesis by (simp add: cleared_def)
next
  case (pop i t rest)
  with assms(1) show ?thesis by (simp add: cleared_def)
qed (use assms(1) in \<open>simp_all add: cleared_def\<close>)

lemma run_cleared: "run tel es s = Some s' \<Longrightarrow> cleared s \<Longrightarrow> cleared s'"
  by (rule run_invariant[where P = cleared]) (auto intro: step_cleared)

lemma pending_run:
  "run False pending_schedule one_worker =
     Some \<lparr> m_cfg = \<lparr> workerThreads = 1 \<rparr>,
            m_queue = [\<lparr> fn = Fn Throws, id_tel = 0, label = None \<rparr>,
                       \<lparr> fn = Fn Returns, id_tel = 0, label = None \<rparr>],
            m_accepting = False,
            m_inFlight = 1, m_submitted = 3, m_completed = 0,
            m_workers = [\<lparr> pc = W_Exec \<lparr> fn = Fn Returns, id_tel = 0, label = None \<rparr>,
                           stop_requested = False \<rparr>],
            m_nextTaskId = 1,
            callers = (\<lambda>_. C_Idle)(0 := C_Returned (RBool True),
                                     1 := C_Stop_Clear CancelPending) \<rparr>"
  by (simp add: pending_schedule_def one_worker_def exec_simps)

text \<open>
  C3 (as amended). The critical section of \<^verbatim>\<open>Stop(CancelPending)\<close> empties the queue and
  changes none of the counters. In every state reached afterwards the queue is empty, and
  when no worker is between its increment of \<^verbatim>\<open>m_completed\<close> and its decrement of
  \<^verbatim>\<open>m_inFlight\<close>, \<open>submitted = completed + inFlight + d\<close>, where \<open>d\<close> is the number of
  tasks that were in the queue when it was cleared.
\<close>

theorem discard_equation:
  assumes "run tel es (JobSystem_ctor cfg hc) = Some s"
      and "callers s c = C_Stop_Clear CancelPending"
      and "step tel (Resume c) s = Some s'"
      and "run tel es' s' = Some s''"
  shows "m_queue s' = [] \<and> m_completed s' = m_completed s \<and> m_submitted s' = m_submitted s
         \<and> m_inFlight s' = m_inFlight s
         \<and> m_queue s'' = []
         \<and> (\<not> mid_transition s'' \<longrightarrow>
              m_submitted s'' = m_completed s'' + m_inFlight s'' + of_nat (length (m_queue s)))"
proof -
  have s': "s' = Stop_locked c CancelPending s"
    using assms(2,3) by simp
  have si: "stop_inv s" using run_stop_inv[OF assms(1)] .
  have ss: "single_stopper s"
    using run_invariant[where P = "\<lambda>s. stop_inv s \<and> single_stopper s", OF _ _ assms(1)]
          step_stop_inv step_single_stopper stop_inv_ctor single_stopper_ctor by blast
  have "\<not> closed s" using assms(2) by (auto simp: closed_def)
  then have "dropped tel es (JobSystem_ctor cfg hc) = []"
    using run_not_closed_dropped[OF assms(1) stop_inv_ctor single_stopper_ctor] by blast
  then have b0: "balance s = 0"
    using run_balance[OF assms(1)] by (simp add: discarded_def balance_ctor)
  have b1: "balance s' + of_nat (length (m_queue s)) = 0"
    using step_balance[OF assms(3)] assms(2) b0 by (simp add: drop_of_def)
  have cl: "closed s'" using clear_closed[OF si ss assms(2)] s' by simp
  have b2: "balance s'' = balance s'"
    using run_balance[OF assms(4)] run_closed_discarded[OF assms(4) cl] by simp
  have "cleared s'" using stop_invD[OF si, of c] assms(2) by (simp add: s' cleared_def Stop_locked_def goto_def)
  then have q: "m_queue s'' = []" using run_cleared[OF assms(4)] by (simp add: cleared_def)
  have eq: "m_submitted s'' = m_completed s'' + m_inFlight s'' + of_nat (length (m_queue s))"
    if "\<not> mid_transition s''"
  proof -
    from that have "n_done (m_workers s'') = 0" by (simp add: n_done_zero mid_transition_def)
    moreover from b1 b2 have "balance s'' + of_nat (length (m_queue s)) = 0" by simp
    ultimately have "m_completed s'' + m_inFlight s'' - m_submitted s'' + of_nat (length (m_queue s)) = 0"
      using q by (simp add: balance_def)
    then show ?thesis by (simp add: algebra_simps)
  qed
  show ?thesis
    using q eq by (simp add: s' Stop_locked_def goto_def)
qed

theorem discard_equation_witness:
  "run False pending_schedule one_worker \<noteq> None
   \<and> callers (the (run False pending_schedule one_worker)) 1 = C_Stop_Clear CancelPending
   \<and> step False (Resume 1) (the (run False pending_schedule one_worker))
       = run False cancel_schedule one_worker
   \<and> run False [Work 0, Work 0, Work 0] (the (run False cancel_schedule one_worker)) \<noteq> None
   \<and> \<not> mid_transition
         (the (run False [Work 0, Work 0, Work 0] (the (run False cancel_schedule one_worker))))
   \<and> m_submitted
         (the (run False [Work 0, Work 0, Work 0] (the (run False cancel_schedule one_worker))))
       = m_completed
           (the (run False [Work 0, Work 0, Work 0] (the (run False cancel_schedule one_worker))))
         + m_inFlight
           (the (run False [Work 0, Work 0, Work 0] (the (run False cancel_schedule one_worker))))
         + 2"
proof -
  let ?a = "the (run False pending_schedule one_worker)"
  let ?b = "the (run False cancel_schedule one_worker)"
  let ?c = "the (run False [Work 0, Work 0, Work 0] ?b)"
  have r: "run False pending_schedule one_worker = Some ?a" by (simp add: pending_run)
  have r0: "run False pending_schedule one_worker \<noteq> None" by (simp add: pending_run)
  have at: "callers ?a 1 = C_Stop_Clear CancelPending" by (simp add: pending_run)
  have st: "step False (Resume 1) ?a = run False cancel_schedule one_worker"
    by (simp add: pending_run cancel_run Stop_locked_def goto_def)
  have st': "step False (Resume 1) ?a = Some ?b"
    by (simp add: pending_run cancel_run Stop_locked_def goto_def)
  have rr0: "run False [Work 0, Work 0, Work 0] ?b \<noteq> None"
    by (simp add: cancel_run WorkerLoop_def set_pc_def)
  note rr = option.collapse[OF rr0, symmetric]
  have mt: "\<not> mid_transition ?c"
    by (simp add: cancel_run WorkerLoop_def set_pc_def mid_transition_def)
  have len: "length (m_queue ?a) = 2" by (simp add: pending_run)
  note th = discard_equation[of False pending_schedule "\<lparr> workerThreads = 1 \<rparr>" 0,
      folded one_worker_def, OF r at st' rr]
  with mt have "m_submitted ?c = m_completed ?c + m_inFlight ?c + of_nat (length (m_queue ?a))"
    by blast
  with len have "m_submitted ?c = m_completed ?c + m_inFlight ?c + 2" by simp
  with r0 at st rr0 mt show ?thesis by blast
qed

text \<open>
  C3 as stated fails: one task runs, two are queued, \<^verbatim>\<open>Stop(CancelPending)\<close> clears the
  queue; then \<open>submitted = 3\<close>, \<open>completed = 0\<close> and \<open>inFlight = 1\<close>.
\<close>

theorem discard_counterexample:
  "callers (the (run False pending_schedule one_worker)) 1 = C_Stop_Clear CancelPending
   \<and> step False (Resume 1) (the (run False pending_schedule one_worker))
       = run False cancel_schedule one_worker
   \<and> run False cancel_schedule one_worker \<noteq> None
   \<and> \<not> mid_transition (the (run False cancel_schedule one_worker))
   \<and> m_submitted (the (run False cancel_schedule one_worker))
       \<noteq> m_completed (the (run False cancel_schedule one_worker))
         + m_inFlight (the (run False cancel_schedule one_worker))"
  by (simp add: pending_run cancel_run mid_transition_def Stop_locked_def goto_def)

section \<open>FIFO order\<close>

lemma step_queue:
  assumes "step tel e s = Some s'"
  shows "m_queue s @ enq_of e s = deq_of e s @ drop_of e s @ m_queue s'"
  using assms
proof (cases rule: step_cases)
  case (caller c p n)
  then show ?thesis by simp
next
  case (cas c m)
  then show ?thesis by (auto simp: enq_of_def deq_of_def drop_of_def)
qed (simp_all add: enq_of_def deq_of_def drop_of_def)

lemma cleared_quiet:
  assumes "cleared s"
  shows "enq_of e s = []" "deq_of e s = []" "drop_of e s = []"
  using assms
  by (auto simp: cleared_def enq_of_def deq_of_def drop_of_def
           split: event.splits caller_pc.splits StopMode.splits)

lemma drop_cleared:
  assumes "stop_inv s" "step tel e s = Some s'" "drop_of e s \<noteq> []"
  shows "cleared s'"
proof -
  from assms(3) obtain c where c: "e = Resume c" "callers s c = C_Stop_Clear CancelPending"
    using drop_of_cases by blast
  then have "\<not> m_accepting s" using stop_invD[OF assms(1), of c] by simp
  with c assms(2) show ?thesis by (auto simp: cleared_def Stop_locked_def goto_def)
qed

lemma fifo_gen:
  "run tel es s = Some s' \<Longrightarrow> stop_inv s \<Longrightarrow> C = [] \<or> cleared s \<Longrightarrow>
   A = B @ C @ m_queue s \<Longrightarrow>
   A @ enqueued tel es s = (B @ dequeued tel es s) @ (C @ dropped tel es s) @ m_queue s'"
proof (induction es arbitrary: s A B C)
  case Nil
  then show ?case by (simp add: enqueued_def dequeued_def dropped_def)
next
  case (Cons e es)
  then obtain s1 where s1: "step tel e s = Some s1" and r: "run tel es s1 = Some s'"
    by (auto split: option.splits)
  have si: "stop_inv s1" using step_stop_inv[OF Cons.prems(2) s1] .
  have unfold:
    "enqueued tel (e # es) s = enq_of e s @ enqueued tel es s1"
    "dequeued tel (e # es) s = deq_of e s @ dequeued tel es s1"
    "dropped tel (e # es) s = drop_of e s @ dropped tel es s1"
    using s1 by (simp_all add: enqueued_def dequeued_def dropped_def)
  show ?case
  proof (cases "cleared s")
    case True
    then have q: "enq_of e s = []" "deq_of e s = []" "drop_of e s = []"
      by (rule cleared_quiet)+
    have c1: "cleared s1" using step_cleared[OF True s1] .
    have "m_queue s = []" "m_queue s1 = []" using True c1 by (simp_all add: cleared_def)
    with Cons.prems(4) have A: "A = B @ C @ m_queue s1" by simp
    have "C = [] \<or> cleared s1" using c1 by simp
    from Cons.IH[OF r si this A] show ?thesis by (simp add: unfold q)
  next
    case False
    with Cons.prems(3) have C: "C = []" by simp
    have A: "A @ enq_of e s = (B @ deq_of e s) @ (C @ drop_of e s) @ m_queue s1"
      using Cons.prems(4) step_queue[OF s1] C by simp
    have "C @ drop_of e s = [] \<or> cleared s1"
      using drop_cleared[OF Cons.prems(2) s1] C by auto
    from Cons.IH[OF r si this A] show ?thesis by (simp add: unfold)
  qed
qed

lemma fifo_run:
  "run True fifo_schedule one_worker =
     Some \<lparr> m_cfg = \<lparr> workerThreads = 1 \<rparr>,
            m_queue = [\<lparr> fn = Fn Returns, id_tel = 1, label = Some ''a'' \<rparr>,
                       \<lparr> fn = Fn Returns, id_tel = 3, label = Some ''c'' \<rparr>],
            m_accepting = True,
            m_inFlight = 0, m_submitted = 3, m_completed = 1,
            m_workers = [\<lparr> pc = W_Wait, stop_requested = False \<rparr>],
            m_nextTaskId = 4,
            callers = (\<lambda>_. C_Idle)(1 := C_Returned (RBool True), 0 := C_Returned (RBool True)) \<rparr>"
  by (simp add: fifo_schedule_def one_worker_def exec_simps)

text \<open>
  C9. Along every schedule, the sequence of the items enqueued (in the order of the
  critical sections of the submissions) is the sequence of the items the workers have
  dequeued, followed by the items \<^verbatim>\<open>Stop(CancelPending)\<close> has discarded, followed by the
  queue. A worker that dequeues takes the head of the queue, which is therefore the item
  enqueued earliest among those still present.
\<close>

theorem fifo_order:
  assumes "run tel es (JobSystem_ctor cfg hc) = Some s"
  shows "enqueued tel es (JobSystem_ctor cfg hc)
           = dequeued tel es (JobSystem_ctor cfg hc) @ dropped tel es (JobSystem_ctor cfg hc)
             @ m_queue s
         \<and> (\<forall>i item rest.
               i < length (m_workers s) \<and> pc (m_workers s ! i) = W_Wait \<and> m_queue s = item # rest \<longrightarrow>
               step tel (Work i) s
                 = Some (set_pc i (W_Exec item)
                          (s\<lparr> m_queue := rest, m_inFlight := m_inFlight s + 1 \<rparr>))
               \<and> deq_of (Work i) s = [item]
               \<and> item = enqueued tel es (JobSystem_ctor cfg hc)
                          ! (length (dequeued tel es (JobSystem_ctor cfg hc))
                             + length (dropped tel es (JobSystem_ctor cfg hc))))"
proof -
  have q0: "m_queue (JobSystem_ctor cfg hc) = []"
    by (simp add: JobSystem_ctor_def Let_def)
  have eq: "enqueued tel es (JobSystem_ctor cfg hc)
           = dequeued tel es (JobSystem_ctor cfg hc) @ dropped tel es (JobSystem_ctor cfg hc)
             @ m_queue s"
    using fifo_gen[OF assms stop_inv_ctor, of "[]" "[]" "[]"] q0 by simp
  show ?thesis
  proof (intro conjI allI impI)
    show "enqueued tel es (JobSystem_ctor cfg hc)
           = dequeued tel es (JobSystem_ctor cfg hc) @ dropped tel es (JobSystem_ctor cfg hc)
             @ m_queue s" by (rule eq)
  next
    fix i item rest
    assume a: "i < length (m_workers s) \<and> pc (m_workers s ! i) = W_Wait \<and> m_queue s = item # rest"
    then show "step tel (Work i) s
                 = Some (set_pc i (W_Exec item)
                          (s\<lparr> m_queue := rest, m_inFlight := m_inFlight s + 1 \<rparr>))"
      by (simp add: WorkerLoop_def Let_def)
    from a show "deq_of (Work i) s = [item]" by (simp add: deq_of_def)
    from a eq show "item = enqueued tel es (JobSystem_ctor cfg hc)
                          ! (length (dequeued tel es (JobSystem_ctor cfg hc))
                             + length (dropped tel es (JobSystem_ctor cfg hc)))"
      by (simp add: nth_append)
  qed
qed

theorem fifo_order_witness:
  "run True fifo_schedule one_worker \<noteq> None
   \<and> enqueued True fifo_schedule one_worker
       = dequeued True fifo_schedule one_worker @ dropped True fifo_schedule one_worker
         @ m_queue (the (run True fifo_schedule one_worker))
   \<and> map_option (\<lambda>s. map pc (m_workers s))
        (step True (Work 0) (the (run True fifo_schedule one_worker)))
       = Some [W_Exec \<lparr> fn = Fn Returns, id_tel = 1, label = Some ''a'' \<rparr>]"
proof -
  let ?s = "the (run True fifo_schedule one_worker)"
  let ?a = "\<lparr> fn = Fn Returns, id_tel = 1, label = Some ''a'' \<rparr>"
  let ?c = "\<lparr> fn = Fn Returns, id_tel = 3, label = Some ''c'' \<rparr>"
  have r: "run True fifo_schedule one_worker = Some ?s" by (simp add: fifo_run)
  have r0: "run True fifo_schedule one_worker \<noteq> None" by (simp add: fifo_run)
  have hyp: "0 < length (m_workers ?s) \<and> pc (m_workers ?s ! 0) = W_Wait \<and> m_queue ?s = ?a # [?c]"
    by (simp add: fifo_run)
  note th = fifo_order[of True fifo_schedule "\<lparr> workerThreads = 1 \<rparr>" 0,
      folded one_worker_def, OF r]
  from th have eq: "enqueued True fifo_schedule one_worker
       = dequeued True fifo_schedule one_worker @ dropped True fifo_schedule one_worker @ m_queue ?s"
    by blast
  from th hyp have "step True (Work 0) ?s
      = Some (set_pc 0 (W_Exec ?a) (?s\<lparr> m_queue := [?c], m_inFlight := m_inFlight ?s + 1 \<rparr>))"
    by blast
  then have "map_option (\<lambda>s. map pc (m_workers s)) (step True (Work 0) ?s) = Some [W_Exec ?a]"
    by (simp add: fifo_run set_pc_def)
  with r0 eq show ?thesis by blast
qed

section \<open>The result of a submission\<close>

lemma step_other_caller:
  assumes "step tel e s = Some s'" "e \<noteq> Resume c" "\<forall>a. e \<noteq> Call c a"
  shows "callers s' c = callers s c"
  using assms by (cases rule: step_cases) auto

lemma step_Call_in_call: "in_call (callers s c) \<Longrightarrow> step tel (Call c a) s = None"
  by simp

lemma run_pending_caller:
  "run tel es s = Some s' \<Longrightarrow> Resume c \<notin> set es \<Longrightarrow> in_call (callers s c) \<Longrightarrow>
   callers s' c = callers s c"
proof (induction es arbitrary: s)
  case Nil
  then show ?case by simp
next
  case (Cons e es)
  then obtain s1 where s1: "step tel e s = Some s1" and r: "run tel es s1 = Some s'"
    by (auto split: option.splits)
  from Cons.prems(2) have ne: "e \<noteq> Resume c" "Resume c \<notin> set es" by auto
  have "\<forall>a. e \<noteq> Call c a"
    using s1 step_Call_in_call[OF Cons.prems(3)] by auto
  then have same: "callers s1 c = callers s c"
    using step_other_caller[OF s1 ne(1)] by blast
  with Cons.IH[OF r ne(2)] Cons.prems(3) show ?case by simp
qed

text \<open>
  C2. A call of \<^verbatim>\<open>Submit(t)\<close> or \<^verbatim>\<open>SubmitLabeled(l, t)\<close> by a thread \<open>c\<close>, followed by
  any steps of other threads before \<open>c\<close> runs its critical section in state \<open>s2\<close>: if \<open>t\<close>
  is empty or \<^verbatim>\<open>m_accepting\<close> is false at the fast path, the call returns false at once
  and changes nothing (and \<^verbatim>\<open>m_accepting\<close> is still false in \<open>s2\<close>); otherwise the critical
  section returns the value of \<^verbatim>\<open>m_accepting\<close> in \<open>s2\<close>: true with the item appended to the
  queue and \<^verbatim>\<open>m_submitted\<close> incremented, or false with nothing changed.
\<close>

theorem Submit_result:
  assumes "\<not> in_call (callers s c)"
      and "a = Call_Submit t \<or> a = Call_SubmitLabeled l t"
      and "step tel (Call c a) s = Some s1"
      and "run tel es s1 = Some s2"
      and "Resume c \<notin> set es"
  shows "if t = Empty \<or> \<not> m_accepting s
         then s1 = ret c (RBool False) s \<and> (\<not> m_accepting s \<longrightarrow> \<not> m_accepting s2)
         else \<exists>item. fn item = t
                \<and> callers s1 c = C_SubmitLabeled_Lock item
                \<and> m_queue s1 = m_queue s \<and> m_submitted s1 = m_submitted s
                \<and> callers s2 c = C_SubmitLabeled_Lock item
                \<and> step tel (Resume c) s2
                    = Some (if m_accepting s2
                            then ret c (RBool True)
                                   (s2\<lparr> m_queue := m_queue s2 @ [item],
                                        m_submitted := m_submitted s2 + 1 \<rparr>)
                            else ret c (RBool False) s2)"
proof -
  have s1: "s1 = SubmitLabeled tel c (if a = Call_Submit t then None else l) t s"
    using assms(1,2,3) by (auto simp: Submit_def)
  show ?thesis
  proof (cases "t = Empty \<or> \<not> m_accepting s")
    case True
    then have r: "s1 = ret c (RBool False) s" by (auto simp: s1 SubmitLabeled_def)
    have "\<not> m_accepting s2" if "\<not> m_accepting s"
    proof -
      from that r have "\<not> m_accepting s1" by (simp add: ret_def goto_def)
      then show ?thesis using run_accepting_mono[OF assms(4)] by blast
    qed
    with True r show ?thesis by simp
  next
    case False
    define item where "item =
      (if tel then \<lparr> fn = t, id_tel = m_nextTaskId s, label = (if a = Call_Submit t then None else l) \<rparr>
       else \<lparr> fn = t, id_tel = 0, label = None \<rparr>)"
    have f: "fn item = t" by (simp add: item_def)
    have pc1: "callers s1 c = C_SubmitLabeled_Lock item"
      using False by (simp add: s1 SubmitLabeled_def goto_def item_def)
    have same: "m_queue s1 = m_queue s" "m_submitted s1 = m_submitted s"
      using False by (simp_all add: s1 SubmitLabeled_def goto_def)
    have pc2: "callers s2 c = C_SubmitLabeled_Lock item"
      using run_pending_caller[OF assms(4,5)] pc1 by simp
    then have "step tel (Resume c) s2
                    = Some (if m_accepting s2
                            then ret c (RBool True)
                                   (s2\<lparr> m_queue := m_queue s2 @ [item],
                                        m_submitted := m_submitted s2 + 1 \<rparr>)
                            else ret c (RBool False) s2)"
      by (simp add: SubmitLabeled_locked_def)
    with False f pc1 same pc2 show ?thesis by auto
  qed
qed

theorem Submit_result_witness:
  "\<not> in_call (callers one_worker 0)
   \<and> step False (Call 0 (Call_Submit (Fn Returns))) one_worker \<noteq> None
   \<and> run False race_schedule (the (step False (Call 0 (Call_Submit (Fn Returns))) one_worker)) \<noteq> None
   \<and> Resume 0 \<notin> set race_schedule
   \<and> Fn Returns \<noteq> Empty \<and> m_accepting one_worker
   \<and> \<not> m_accepting
         (the (run False race_schedule (the (step False (Call 0 (Call_Submit (Fn Returns))) one_worker))))
   \<and> map_option (\<lambda>s. (callers s 0, m_queue s, m_submitted s))
        (step False (Resume 0)
           (the (run False race_schedule (the (step False (Call 0 (Call_Submit (Fn Returns))) one_worker)))))
       = Some (C_Returned (RBool False), [], 0)"
proof -
  let ?a = "the (step False (Call 0 (Call_Submit (Fn Returns))) one_worker)"
  let ?b = "the (run False race_schedule ?a)"
  have idle: "\<not> in_call (callers one_worker 0)" by (simp add: one_worker_def JobSystem_ctor_def Let_def)
  have api: "Call_Submit (Fn Returns) = Call_Submit (Fn Returns) \<or> Call_Submit (Fn Returns) = Call_SubmitLabeled None (Fn Returns)"
    by simp
  have st0: "step False (Call 0 (Call_Submit (Fn Returns))) one_worker \<noteq> None"
    using idle by simp
  note st = option.collapse[OF st0, symmetric]
  have r0: "run False race_schedule ?a \<noteq> None"
    by (simp add: race_schedule_def one_worker_def exec_simps)
  note r = option.collapse[OF r0, symmetric]
  have nr: "Resume 0 \<notin> set race_schedule" by (simp add: race_schedule_def)
  have acc: "m_accepting one_worker" by (simp add: one_worker_def JobSystem_ctor_def Let_def)
  have nacc: "\<not> m_accepting ?b" by (simp add: race_schedule_def one_worker_def exec_simps)
  have q: "m_queue ?b = []" "m_submitted ?b = 0" by (simp_all add: race_schedule_def one_worker_def exec_simps)
  have cond: "\<not> (Fn Returns = Empty \<or> \<not> m_accepting one_worker)" using acc by simp
  note th = Submit_result[OF idle api st r nr]
  then obtain item where "step False (Resume 0) ?b
                    = Some (if m_accepting ?b
                            then ret 0 (RBool True)
                                   (?b\<lparr> m_queue := m_queue ?b @ [item],
                                        m_submitted := m_submitted ?b + 1 \<rparr>)
                            else ret 0 (RBool False) ?b)"
    unfolding if_not_P[OF cond] by blast
  then have "step False (Resume 0) ?b = Some (ret 0 (RBool False) ?b)"
    unfolding if_not_P[OF nacc] .
  then have "map_option (\<lambda>s. (callers s 0, m_queue s, m_submitted s)) (step False (Resume 0) ?b)
               = Some (C_Returned (RBool False), [], 0)"
    using q by (simp add: ret_def goto_def)
  with idle st0 r0 nr acc nacc show ?thesis by simp
qed

text \<open>
  C10. \<^verbatim>\<open>Submit(t)\<close> is \<^verbatim>\<open>SubmitLabeled(nullptr, t)\<close>: the same first action in every
  state, and the same run when every \<^verbatim>\<open>Submit\<close> of a schedule is replaced.
\<close>

theorem Submit_is_SubmitLabeled_nullptr:
  "Submit tel c t s = SubmitLabeled tel c None t s
   \<and> step tel (Call c (Call_Submit t)) s = step tel (Call c (Call_SubmitLabeled None t)) s
   \<and> run tel (map as_labeled es) s = run tel es s"
proof -
  have st: "step tel (as_labeled e) s = step tel e s" for e s
    by (cases e rule: as_labeled.cases) (simp_all add: Submit_def)
  have "run tel (map as_labeled es) s = run tel es s"
    by (induction es arbitrary: s) (simp_all add: st split: option.splits)
  then show ?thesis by (simp add: Submit_def)
qed

section \<open>Idempotence of Stop\<close>

text \<open>
  While a worker is still running, a destructor that has lost the compare-exchange blocks
  in the join of that worker.
\<close>

lemma destructor_waits_for_worker:
  "callers s c = C_Dtor_Join i \<Longrightarrow> i < length (m_workers s) \<Longrightarrow>
   pc (m_workers s ! i) \<noteq> W_Returned \<Longrightarrow> step tel (Resume c) s = None"
  by (simp add: dtor_join_def)

lemma destructor_after_shutdown:
  assumes "\<not> m_accepting s" "m_workers s = []" "\<not> in_call (callers s c)"
  shows "run tel [Call c Call_Destroy, Resume c] s
           = Some (s\<lparr> callers := (callers s)(c := C_Returned RVoid) \<rparr>)"
  using assms by (simp add: JobSystem_dtor_def dtor_request_stop_def ret_def goto_def)

text \<open>
  C7. After any schedule that holds a call of \<^verbatim>\<open>Stop\<close> or of the destructor (whether
  that call has finished or not), a further call of \<^verbatim>\<open>Stop\<close>, with any mode, returns in
  its first step and changes no member of the scheduler. The destructor is such a no-op
  once a \<^verbatim>\<open>Stop\<close> has finished its shutdown (the workers joined, \<^verbatim>\<open>m_workers\<close> cleared),
  and whenever no thread is inside a call of the scheduler, as the destruction of an object
  requires: its \<^verbatim>\<open>Stop(Drain)\<close> loses the compare-exchange and the destruction of the
  members finds no worker to join, so the destructor returns and no member has changed.
\<close>

theorem Stop_idempotent:
  assumes "run tel es (JobSystem_ctor cfg hc) = Some s"
      and "list_ex is_stop_call es"
      and "\<not> in_call (callers s c)"
  shows "step tel (Call c (Call_Stop mode)) s
           = Some (s\<lparr> callers := (callers s)(c := C_Returned RVoid) \<rparr>)
         \<and> (joined tel es (JobSystem_ctor cfg hc) \<noteq> [] \<or> (\<forall>c'. \<not> in_call (callers s c')) \<longrightarrow>
              run tel [Call c Call_Destroy, Resume c] s
                = Some (s\<lparr> callers := (callers s)(c := C_Returned RVoid) \<rparr>))"
proof (intro conjI impI)
  have na: "\<not> m_accepting s" using run_stop_call[OF assms(1,2)] .
  show "step tel (Call c (Call_Stop mode)) s
           = Some (s\<lparr> callers := (callers s)(c := C_Returned RVoid) \<rparr>)"
    using na assms(3) by (simp add: Stop_def ret_def goto_def)
  assume h: "joined tel es (JobSystem_ctor cfg hc) \<noteq> [] \<or> (\<forall>c'. \<not> in_call (callers s c'))"
  have "m_workers s = []"
    using h
  proof
    assume "joined tel es (JobSystem_ctor cfg hc) \<noteq> []"
    with run_joined[OF assms(1)] show ?thesis by simp
  next
    assume "\<forall>c'. \<not> in_call (callers s c')"
    then have "\<forall>c'. \<not> stopping (callers s c')" using stopping_in_call by blast
    with run_shutdown_inv[OF assms(1)] na show ?thesis by (simp add: shutdown_inv_def)
  qed
  then show "run tel [Call c Call_Destroy, Resume c] s
          = Some (s\<lparr> callers := (callers s)(c := C_Returned RVoid) \<rparr>)"
    using na assms(3) by (intro destructor_after_shutdown)
qed

theorem Stop_idempotent_witness:
  "run False stopped_schedule one_worker \<noteq> None
   \<and> list_ex is_stop_call stopped_schedule
   \<and> \<not> in_call (callers (the (run False stopped_schedule one_worker)) 0)
   \<and> joined False stopped_schedule one_worker \<noteq> []
   \<and> step False (Call 0 (Call_Stop CancelPending)) (the (run False stopped_schedule one_worker))
       = run False stopped_schedule one_worker
   \<and> run False [Call 0 Call_Destroy, Resume 0] (the (run False stopped_schedule one_worker))
       = run False stopped_schedule one_worker"
proof -
  let ?s = "the (run False stopped_schedule one_worker)"
  have r: "run False stopped_schedule one_worker = Some ?s" by (simp add: stopped_run)
  have r0: "run False stopped_schedule one_worker \<noteq> None" by (simp add: stopped_run)
  have ex: "list_ex is_stop_call stopped_schedule"
    by (simp add: stopped_schedule_def drain_schedule_def)
  have idle: "\<not> in_call (callers ?s 0)" by (simp add: stopped_run)
  have j: "joined False stopped_schedule one_worker \<noteq> []"
    by (simp add: joined_def join_of_def stopped_schedule_def drain_schedule_def one_worker_def
                  exec_simps)
  have same: "?s\<lparr> callers := (callers ?s)(0 := C_Returned RVoid) \<rparr> = ?s"
    by (simp add: stopped_run)
  note th = Stop_idempotent[of False stopped_schedule "\<lparr> workerThreads = 1 \<rparr>" 0 _ 0 CancelPending,
      folded one_worker_def, OF r ex idle]
  with j same r have "step False (Call 0 (Call_Stop CancelPending)) ?s = run False stopped_schedule one_worker"
    and "run False [Call 0 Call_Destroy, Resume 0] ?s = run False stopped_schedule one_worker"
    by simp_all
  with r0 ex idle j show ?thesis by blast
qed

end
